theory Spec2Isabelle
  imports Main "HOL-Library.Sublist"
begin

section \<open>The SQL tokenizer of sql-formatter\<close>

text \<open>
  A shallow embedding of the class \<open>Tokenizer\<close> (the core of the formatter's lexer).
  Strings are \<^typ>\<open>string\<close> and are read as ASCII text: the character classes and the
  upper-casing below are the ASCII part of what JavaScript does on Unicode.

  The module \<open>regexFactory\<close> and the helpers of \<open>utils\<close> are not part of the sources
  at hand. The factory is a parameter of the model (a record of functions); the
  helpers \<open>equalizeWhitespace\<close> and \<open>escapeRegExp\<close> are modelled from the
  specification, and so is one concrete factory that the examples run on.
\<close>

subsection \<open>Regular expressions\<close>

text \<open>
  The pattern literals of the source are written as terms of \<open>rx\<close> and run by a
  backtracking matcher that follows the order in which a JavaScript regular expression
  explores its alternatives: the left alternative first, a greedy star the longest
  repetition first, a lazy star the shortest first. Only capture group 1 is ever read
  by the tokenizer, so \<open>Grp\<close> stands for that group and any further group of a literal is
  plain structure.
\<close>

datatype rx =
    Eps
  | Chr "char \<Rightarrow> bool"
  | Seq rx rx
  | Alt rx rx
  | Star rx
  | Lazy rx
  | Bol
  | Eol
  | Wordb
  | NotAhead rx
  | Grp rx

text \<open>A matcher state: the character just before the cursor (none at the start of the
  input), the input from the cursor on, and the text of group 1 once it has closed.\<close>

record mstate =
  prev :: "char option"
  rest :: string
  cap :: "string option"

definition isSpace :: "char \<Rightarrow> bool" where
  "isSpace c = (c \<in> set [CHR 0x09, CHR 0x0A, CHR 0x0B, CHR 0x0C, CHR 0x0D, CHR 0x20])"

definition isDigit :: "char \<Rightarrow> bool" where
  "isDigit c = (c \<in> set ''0123456789'')"

definition isHex :: "char \<Rightarrow> bool" where
  "isHex c = (c \<in> set ''0123456789abcdefABCDEF'')"

definition isWord :: "char \<Rightarrow> bool" where
  "isWord c = (c \<in> set ''abcdefghijklmnopqrstuvwxyzABCDEFGHIJKLMNOPQRSTUVWXYZ0123456789_'')"

definition anyChar :: "char \<Rightarrow> bool" where
  "anyChar c = True"

definition upperChar :: "char \<Rightarrow> char" where
  "upperChar c =
     (case map_of (zip ''abcdefghijklmnopqrstuvwxyz'' ''ABCDEFGHIJKLMNOPQRSTUVWXYZ'') c of
        None \<Rightarrow> c
      | Some u \<Rightarrow> u)"

definition toUpperCase :: "string \<Rightarrow> string" where
  "toUpperCase s = map upperChar s"

text \<open>The results of \<open>ms r st\<close> are the states in which a match of \<open>r\<close> from \<open>st\<close> can
  end, in the order a backtracking matcher tries them. A star gives up an iteration
  that consumed nothing, as JavaScript does.\<close>

function ms :: "rx \<Rightarrow> mstate \<Rightarrow> mstate list" where
  "ms Eps st = [st]"
| "ms (Chr P) st =
     (case rest st of
        [] \<Rightarrow> []
      | c # cs \<Rightarrow> if P c then [st\<lparr>prev := Some c, rest := cs\<rparr>] else [])"
| "ms (Seq r1 r2) st = concat (map (ms r2) (ms r1 st))"
| "ms (Alt r1 r2) st = ms r1 st @ ms r2 st"
| "ms (Star r) st =
     concat (map (\<lambda>st'. if length (rest st') < length (rest st) then ms (Star r) st' else [])
                 (ms r st)) @ [st]"
| "ms (Lazy r) st =
     st # concat (map (\<lambda>st'. if length (rest st') < length (rest st) then ms (Lazy r) st' else [])
                      (ms r st))"
| "ms Bol st = (if prev st = None then [st] else [])"
| "ms Eol st = (if rest st = [] then [st] else [])"
| "ms Wordb st =
     (if (case prev st of None \<Rightarrow> False | Some c \<Rightarrow> isWord c)
         \<noteq> (case rest st of [] \<Rightarrow> False | c # _ \<Rightarrow> isWord c)
      then [st] else [])"
| "ms (NotAhead r) st = (if ms r st = [] then [st] else [])"
| "ms (Grp r) st =
     map (\<lambda>st'. st'\<lparr>cap := Some (take (length (rest st) - length (rest st')) (rest st))\<rparr>)
         (ms r st)"
  by pat_completeness auto
termination
  by (relation "measure size <*lex*> measure (\<lambda>st. length (rest st))") auto


text \<open>\<open>input.match(regex)\<close> for a pattern without the global flag: the leftmost start
  position at which the pattern matches, and there the first match in backtracking
  order.\<close>

fun search :: "rx \<Rightarrow> char option \<Rightarrow> string \<Rightarrow> mstate option" where
  "search r p [] =
     (case ms r \<lparr>prev = p, rest = [], cap = None\<rparr> of [] \<Rightarrow> None | st # _ \<Rightarrow> Some st)"
| "search r p (c # cs) =
     (case ms r \<lparr>prev = p, rest = c # cs, cap = None\<rparr> of
        [] \<Rightarrow> search r (Some c) cs
      | st # _ \<Rightarrow> Some st)"

text \<open>What the tokenizer sees of a compiled pattern: \<open>input.match(regex)\<close> followed by
  \<open>matches[1]\<close>, \<open>None\<close> when the pattern does not match. Every pattern literal of the
  source that can match wraps its body in group 1, so that the group is defined
  whenever there is a match; the same is taken of the patterns of the factory.\<close>

type_synonym RegExp = "string \<Rightarrow> string option"

definition compile :: "rx \<Rightarrow> RegExp" where
  "compile r input = (case search r None input of None \<Rightarrow> None | Some st \<Rightarrow> cap st)"

fun Lit :: "string \<Rightarrow> rx" where
  "Lit [] = Eps"
| "Lit (c # cs) = Seq (Chr (\<lambda>x. x = c)) (Lit cs)"

text \<open>A literal under the flag \<open>i\<close>.\<close>

fun LitI :: "string \<Rightarrow> rx" where
  "LitI [] = Eps"
| "LitI (c # cs) = Seq (Chr (\<lambda>x. upperChar x = upperChar c)) (LitI cs)"

fun Seqs :: "rx list \<Rightarrow> rx" where
  "Seqs [] = Eps"
| "Seqs [r] = r"
| "Seqs (r # rs) = Seq r (Seqs rs)"

text \<open>An alternation \<open>r1|r2|...\<close>; the empty alternation is only ever asked for by the
  modelled factory and matches nothing, as the empty class \<open>[]\<close> does.\<close>

definition noChar :: "char \<Rightarrow> bool" where
  "noChar c = False"

fun Alts :: "rx list \<Rightarrow> rx" where
  "Alts [] = Chr noChar"
| "Alts [r] = r"
| "Alts (r # rs) = Alt r (Alts rs)"

definition Optional :: "rx \<Rightarrow> rx" where
  "Optional r = Alt r Eps"

definition OneOrMore :: "rx \<Rightarrow> rx" where
  "OneOrMore r = Seq r (Star r)"

subsection \<open>The pattern literals of the source\<close>

text \<open>\<^verbatim>\<open>WHITESPACE_REGEX = /^(\s+)/u\<close>\<close>

definition WHITESPACE_REGEX :: rx where
  "WHITESPACE_REGEX = Seq Bol (Grp (OneOrMore (Chr isSpace)))"

text \<open>\<^verbatim>\<open>NULL_REGEX = /(?!)/\<close>\<close>

definition NULL_REGEX :: rx where
  "NULL_REGEX = NotAhead Eps"

text \<open>\<^verbatim>\<open>/^(CASE)\b/iu\<close> and \<^verbatim>\<open>/^(END)\b/iu\<close>\<close>

definition CASE_START_REGEX :: rx where
  "CASE_START_REGEX = Seq Bol (Seq (Grp (LitI ''CASE'')) Wordb)"

definition CASE_END_REGEX :: rx where
  "CASE_END_REGEX = Seq Bol (Seq (Grp (LitI ''END'')) Wordb)"

text \<open>\<^verbatim>\<open>/^(\/\*[^]*?(?:\*\/|$))/u\<close>\<close>

definition BLOCK_COMMENT_REGEX :: rx where
  "BLOCK_COMMENT_REGEX =
     Seq Bol (Grp (Seq (Lit ''/*'') (Seq (Lazy (Chr anyChar)) (Alt (Lit ''*/'') Eol))))"

text \<open>\<^verbatim>\<open>/^(0x[0-9a-fA-F]+|0b[01]+|(-\s*)?[0-9]+(\.[0-9]*)?([eE][-+]?[0-9]+(\.[0-9]+)?)?)/u\<close>\<close>

definition NUMBER_REGEX :: rx where
  "NUMBER_REGEX =
     Seq Bol (Grp (Alts
       [Seq (Lit ''0x'') (OneOrMore (Chr isHex)),
        Seq (Lit ''0b'') (OneOrMore (Chr (\<lambda>c. c \<in> set ''01''))),
        Seqs [Optional (Seq (Lit ''-'') (Star (Chr isSpace))),
              OneOrMore (Chr isDigit),
              Optional (Seq (Lit ''.'') (Star (Chr isDigit))),
              Optional (Seqs [Chr (\<lambda>c. c \<in> set ''eE''),
                              Optional (Chr (\<lambda>c. c \<in> set ''-+'')),
                              OneOrMore (Chr isDigit),
                              Optional (Seq (Lit ''.'') (OneOrMore (Chr isDigit)))])]]))"

text \<open>\<^verbatim>\<open>/^(\?)/\<close>\<close>

definition POSITIONAL_REGEX :: rx where
  "POSITIONAL_REGEX = Seq Bol (Grp (Lit ''?''))"

subsection \<open>Tokens\<close>

datatype TokenType =
    IDENT
  | STRING
  | RESERVED_KEYWORD
  | RESERVED_LOGICAL_OPERATOR
  | RESERVED_DEPENDENT_CLAUSE
  | RESERVED_BINARY_COMMAND
  | RESERVED_COMMAND
  | RESERVED_JOIN_CONDITION
  | RESERVED_CASE_START
  | RESERVED_CASE_END
  | OPERATOR
  | BLOCK_START
  | BLOCK_END
  | LINE_COMMENT
  | BLOCK_COMMENT
  | NUMBER
  | PLACEHOLDER
  | EOF

text \<open>The fields \<open>key\<close> and \<open>whitespaceBefore\<close> are absent from the object that \<open>match\<close>
  builds; \<open>None\<close> is the absent field.\<close>

record Token =
  type :: TokenType
  "text" :: string
  "value" :: string
  key :: "string option"
  whitespaceBefore :: "string option"

subsection \<open>Configuration\<close>

type_synonym QuoteType = string

record SpecialIdentChars =
  sic_prefix :: "string option"
  sic_any :: "string option"
  sic_suffix :: "string option"

text \<open>\<open>TokenizerOptions\<close>: a field written with \<open>?\<close> in the source is an option here.\<close>

record TokenizerOptions =
  reservedKeywords :: "string list"
  reservedCommands :: "string list"
  reservedLogicalOperators :: "string list option"
  reservedDependentClauses :: "string list"
  reservedBinaryCommands :: "string list"
  reservedJoinConditions :: "string list option"
  stringTypes :: "QuoteType list"
  identifierTypes :: "QuoteType list"
  blockStart :: "string list option"
  blockEnd :: "string list option"
  positionalPlaceholders :: "bool option"
  numberedPlaceholderTypes :: "string list option"
  namedPlaceholderTypes :: "string list option"
  quotedPlaceholderTypes :: "string list option"
  lineCommentTypes :: "string list option"
  specialIdentChars :: "SpecialIdentChars option"
  operators :: "string list option"
  cfg_preprocess :: "(Token list \<Rightarrow> Token list) option"

text \<open>The functions of the module \<open>regexFactory\<close> that the constructor calls. The module
  is not among the sources, so the tokenizer is modelled over any such record. A
  pattern handed to the factory as regular-expression source text is handed over as
  an \<open>rx\<close> here.\<close>

record RegexFactory =
  createIdentRegex :: "SpecialIdentChars option \<Rightarrow> RegExp"
  createQuoteRegex :: "QuoteType list \<Rightarrow> RegExp"
  createQuotePattern :: "QuoteType list \<Rightarrow> rx"
  createReservedWordRegex :: "string list \<Rightarrow> string \<Rightarrow> RegExp"
  createOperatorRegex :: "string \<Rightarrow> string list \<Rightarrow> RegExp"
  createParenRegex :: "string list \<Rightarrow> RegExp"
  createLineCommentRegex :: "string list \<Rightarrow> RegExp"
  createPlaceholderRegex :: "string list \<Rightarrow> rx \<Rightarrow> RegExp option"

subsection \<open>Helpers of \<open>utils\<close>\<close>

text \<open>Modelled from the spec: \<open>equalizeWhitespace\<close> of \<open>utils\<close> is missing from the sources;
  the specification has the canonical form "collapsing all internal whitespace runs to
  a single space". Every maximal run of whitespace becomes one space.\<close>

function equalizeWhitespace :: "string \<Rightarrow> string" where
  "equalizeWhitespace [] = []"
| "equalizeWhitespace (c # cs) =
     (if isSpace c then CHR 0x20 # equalizeWhitespace (dropWhile isSpace cs)
      else c # equalizeWhitespace cs)"
  by pat_completeness auto
termination
  by (relation "measure length") (auto simp: le_imp_less_Suc length_dropWhile_le)

definition toCanonicalKeyword :: "string \<Rightarrow> string" where
  "toCanonicalKeyword txt = equalizeWhitespace (toUpperCase txt)"

text \<open>Modelled from the spec: \<open>escapeRegExp\<close> of \<open>utils\<close> is missing from the sources; it is
  taken to escape its argument so that the pattern built of it matches the argument
  literally. \<open>replaceLiteral p ps rep s\<close> is then \<open>s.replace(new RegExp(..., 'gu'), rep)\<close>
  for the literal \<open>p # ps\<close>: every occurrence, left to right, without overlap.\<close>

function replaceLiteral :: "char \<Rightarrow> string \<Rightarrow> string \<Rightarrow> string \<Rightarrow> string" where
  "replaceLiteral p ps rep [] = []"
| "replaceLiteral p ps rep (c # cs) =
     (if c = p \<and> prefix ps cs then rep @ replaceLiteral p ps rep (drop (length ps) cs)
      else c # replaceLiteral p ps rep cs)"
  by pat_completeness auto
termination
  by (relation "measure (\<lambda>(p, ps, rep, s). length s)") auto

subsection \<open>The class \<open>Tokenizer\<close>\<close>

record 'r PatternOf =
  regex :: 'r
  parseKey :: "string \<Rightarrow> string"

type_synonym PlaceholderPattern = "RegExp PatternOf"

record Tokenizer =
  REGEX_MAP :: "TokenType \<Rightarrow> RegExp"
  quotedIdentRegex :: RegExp
  placeholderPatterns :: "PlaceholderPattern list"
  preprocess :: "Token list \<Rightarrow> Token list"

text \<open>\<open>s.slice(1)\<close>, \<open>s.slice(2, -1)\<close> and \<open>s.slice(-1)\<close>.\<close>

definition slice1 :: "string \<Rightarrow> string" where
  "slice1 s = drop 1 s"

definition slice2m1 :: "string \<Rightarrow> string" where
  "slice2m1 s = drop 2 (take (length s - 1) s)"

definition sliceLast :: "string \<Rightarrow> string" where
  "sliceLast s = drop (length s - 1) s"

definition getEscapedPlaceholderKey :: "string \<Rightarrow> string \<Rightarrow> string" where
  "getEscapedPlaceholderKey k quoteChar = replaceLiteral (CHR 0x5C) quoteChar quoteChar k"

definition excludePatternsWithoutRegexes ::
  "(RegExp option) PatternOf list \<Rightarrow> PlaceholderPattern list" where
  "excludePatternsWithoutRegexes patterns =
     List.map_filter
       (\<lambda>p. case regex p of
               None \<Rightarrow> None
             | Some re \<Rightarrow> Some \<lparr>regex = re, parseKey = parseKey p\<rparr>)
       patterns"

text \<open>\<open>Object.values(cfg.specialIdentChars ?? {}).join('')\<close>, the properties read in the
  order of their declaration.\<close>

definition specialIdentCharsAll :: "TokenizerOptions \<Rightarrow> string" where
  "specialIdentCharsAll cfg =
     (case specialIdentChars cfg of
        None \<Rightarrow> []
      | Some sic \<Rightarrow>
          concat (List.map_filter (\<lambda>x. x) [sic_prefix sic, sic_any sic, sic_suffix sic]))"

definition orDefault :: "'a option \<Rightarrow> 'a \<Rightarrow> 'a" where
  "orDefault x d = (case x of None \<Rightarrow> d | Some v \<Rightarrow> v)"

definition constructor :: "RegexFactory \<Rightarrow> TokenizerOptions \<Rightarrow> Tokenizer" where
  "constructor rf cfg =
     \<lparr>REGEX_MAP = (\<lambda>t. case t of
          IDENT \<Rightarrow> createIdentRegex rf (specialIdentChars cfg)
        | STRING \<Rightarrow> createQuoteRegex rf (stringTypes cfg)
        | RESERVED_KEYWORD \<Rightarrow>
            createReservedWordRegex rf (reservedKeywords cfg) (specialIdentCharsAll cfg)
        | RESERVED_DEPENDENT_CLAUSE \<Rightarrow>
            createReservedWordRegex rf (reservedDependentClauses cfg) (specialIdentCharsAll cfg)
        | RESERVED_LOGICAL_OPERATOR \<Rightarrow>
            createReservedWordRegex rf
              (orDefault (reservedLogicalOperators cfg) [''AND'', ''OR''])
              (specialIdentCharsAll cfg)
        | RESERVED_COMMAND \<Rightarrow>
            createReservedWordRegex rf (reservedCommands cfg) (specialIdentCharsAll cfg)
        | RESERVED_BINARY_COMMAND \<Rightarrow>
            createReservedWordRegex rf (reservedBinaryCommands cfg) (specialIdentCharsAll cfg)
        | RESERVED_JOIN_CONDITION \<Rightarrow>
            createReservedWordRegex rf
              (orDefault (reservedJoinConditions cfg) [''ON'', ''USING''])
              (specialIdentCharsAll cfg)
        | OPERATOR \<Rightarrow>
            createOperatorRegex rf ''+-/*%&|^><=.,;[]{}`:$@''
              ([''<>'', ''<='', ''>='', ''!=''] @ orDefault (operators cfg) [])
        | BLOCK_START \<Rightarrow> createParenRegex rf (orDefault (blockStart cfg) [''(''])
        | BLOCK_END \<Rightarrow> createParenRegex rf (orDefault (blockEnd cfg) ['')''])
        | RESERVED_CASE_START \<Rightarrow> compile CASE_START_REGEX
        | RESERVED_CASE_END \<Rightarrow> compile CASE_END_REGEX
        | LINE_COMMENT \<Rightarrow> createLineCommentRegex rf (orDefault (lineCommentTypes cfg) [''--''])
        | BLOCK_COMMENT \<Rightarrow> compile BLOCK_COMMENT_REGEX
        | NUMBER \<Rightarrow> compile NUMBER_REGEX
        | PLACEHOLDER \<Rightarrow> compile NULL_REGEX
        | EOF \<Rightarrow> compile NULL_REGEX),
      quotedIdentRegex = createQuoteRegex rf (identifierTypes cfg),
      placeholderPatterns = excludePatternsWithoutRegexes
        [\<lparr>regex = createPlaceholderRegex rf (orDefault (namedPlaceholderTypes cfg) [])
                    (OneOrMore (Chr (\<lambda>c. isWord c \<or> c = CHR ''$''))),
          parseKey = slice1\<rparr>,
         \<lparr>regex = createPlaceholderRegex rf (orDefault (quotedPlaceholderTypes cfg) [])
                    (createQuotePattern rf (identifierTypes cfg)),
          parseKey = (\<lambda>v. getEscapedPlaceholderKey (slice2m1 v) (sliceLast v))\<rparr>,
         \<lparr>regex = createPlaceholderRegex rf (orDefault (numberedPlaceholderTypes cfg) [])
                    (OneOrMore (Chr isDigit)),
          parseKey = slice1\<rparr>,
         \<lparr>regex = (if orDefault (positionalPlaceholders cfg) False
                   then Some (compile POSITIONAL_REGEX) else None),
          parseKey = slice1\<rparr>],
      preprocess = (case cfg_preprocess cfg of None \<Rightarrow> (\<lambda>tokens. tokens) | Some f \<Rightarrow> f)\<rparr>"

text \<open>\<open>a || b\<close> on values that are a token or \<open>undefined\<close>.\<close>

definition orElse :: "'a option \<Rightarrow> 'a option \<Rightarrow> 'a option" where
  "orElse a b = (case a of Some x \<Rightarrow> Some x | None \<Rightarrow> b)"

definition match :: "string \<Rightarrow> TokenType \<Rightarrow> RegExp \<Rightarrow> (string \<Rightarrow> string) \<Rightarrow> Token option" where
  "match input ty re transform =
     (case re input of
        Some m1 \<Rightarrow>
          Some \<lparr>type = ty, text = m1, value = transform m1, key = None, whitespaceBefore = None\<rparr>
      | None \<Rightarrow> None)"

definition matchToken :: "Tokenizer \<Rightarrow> TokenType \<Rightarrow> string \<Rightarrow> Token option" where
  "matchToken tk tokenType input = match input tokenType (REGEX_MAP tk tokenType) id"

definition matchReservedToken :: "Tokenizer \<Rightarrow> TokenType \<Rightarrow> string \<Rightarrow> Token option" where
  "matchReservedToken tk tokenType input =
     match input tokenType (REGEX_MAP tk tokenType) toCanonicalKeyword"

definition matchReservedWordToken :: "Tokenizer \<Rightarrow> string \<Rightarrow> Token option \<Rightarrow> Token option" where
  "matchReservedWordToken tk input previousToken =
     (if map_option value previousToken = Some ''.'' then None
      else
        orElse (matchReservedToken tk RESERVED_CASE_START input)
       (orElse (matchReservedToken tk RESERVED_CASE_END input)
       (orElse (matchReservedToken tk RESERVED_COMMAND input)
       (orElse (matchReservedToken tk RESERVED_BINARY_COMMAND input)
       (orElse (matchReservedToken tk RESERVED_DEPENDENT_CLAUSE input)
       (orElse (matchReservedToken tk RESERVED_LOGICAL_OPERATOR input)
       (orElse (matchReservedToken tk RESERVED_KEYWORD input)
               (matchReservedToken tk RESERVED_JOIN_CONDITION input))))))))"

definition matchQuotedIdentToken :: "Tokenizer \<Rightarrow> string \<Rightarrow> Token option" where
  "matchQuotedIdentToken tk input = match input IDENT (quotedIdentRegex tk) id"

fun matchPlaceholderLoop :: "PlaceholderPattern list \<Rightarrow> string \<Rightarrow> Token option" where
  "matchPlaceholderLoop [] input = None"
| "matchPlaceholderLoop (p # ps) input =
     (case match input PLACEHOLDER (regex p) id of
        Some token \<Rightarrow> Some (token\<lparr>key := Some (parseKey p (value token))\<rparr>)
      | None \<Rightarrow> matchPlaceholderLoop ps input)"

definition matchPlaceholderToken :: "Tokenizer \<Rightarrow> string \<Rightarrow> Token option" where
  "matchPlaceholderToken tk input = matchPlaceholderLoop (placeholderPatterns tk) input"

definition getNextToken :: "Tokenizer \<Rightarrow> string \<Rightarrow> Token option \<Rightarrow> Token option" where
  "getNextToken tk input previousToken =
     orElse (matchToken tk LINE_COMMENT input)
    (orElse (matchToken tk BLOCK_COMMENT input)
    (orElse (matchToken tk STRING input)
    (orElse (matchQuotedIdentToken tk input)
    (orElse (matchToken tk BLOCK_START input)
    (orElse (matchToken tk BLOCK_END input)
    (orElse (matchPlaceholderToken tk input)
    (orElse (matchToken tk NUMBER input)
    (orElse (matchReservedWordToken tk input previousToken)
    (orElse (matchToken tk IDENT input)
            (matchToken tk OPERATOR input))))))))))"

definition getWhitespace :: "string \<Rightarrow> string" where
  "getWhitespace input =
     (case compile WHITESPACE_REGEX input of Some m1 \<Rightarrow> m1 | None \<Rightarrow> [])"

datatype error = Error string

definition parseError :: "string \<Rightarrow> error" where
  "parseError input = Error (''Parse error: Unexpected '' @ [CHR 0x22] @ take 100 input @ [CHR 0x22])"

text \<open>The loop of \<open>tokenize\<close>, on the variables \<open>input\<close>, \<open>token\<close> and \<open>tokens\<close>. Nothing in
  the source bounds the number of iterations, so the loop is a partial function:
  \<open>None\<close> is a run that never leaves the loop.\<close>

partial_function (option) tokenizeLoop ::
  "Tokenizer \<Rightarrow> string \<Rightarrow> Token option \<Rightarrow> Token list \<Rightarrow> (error + Token list) option" where
  "tokenizeLoop tk input token tokens =
     (if input \<noteq> [] then
        (let whitespaceBefore = getWhitespace input;
             input1 = drop (length whitespaceBefore) input
         in if input1 \<noteq> [] then
              (case getNextToken tk input1 token of
                 None \<Rightarrow> Some (Inl (parseError input1))
               | Some token' \<Rightarrow>
                   tokenizeLoop tk (drop (length (text token')) input1) (Some token')
                     (tokens @ [token'\<lparr>whitespaceBefore := Some whitespaceBefore\<rparr>]))
            else tokenizeLoop tk input1 token tokens)
      else Some (Inr tokens))"

definition tokenize :: "Tokenizer \<Rightarrow> string \<Rightarrow> (error + Token list) option" where
  "tokenize tk input =
     (case tokenizeLoop tk input None [] of
        None \<Rightarrow> None
      | Some (Inl e) \<Rightarrow> Some (Inl e)
      | Some (Inr tokens) \<Rightarrow> Some (Inr (preprocess tk tokens)))"

subsection \<open>A factory modelled from the specification\<close>

text \<open>Modelled from the spec: the module \<open>regexFactory\<close> is missing from the sources. The
  specification has each of its patterns recognise "that category's longest valid
  prefix at the start of a string", built from the configured words, quoting styles,
  brackets, comment markers, operators and placeholder prefixes; a placeholder style
  with no configured prefix has no pattern. The functions below are one factory of
  that kind. The examples run on it; the general theorems hold for every factory.\<close>

definition sortByLengthDesc :: "string list \<Rightarrow> string list" where
  "sortByLengthDesc ws = rev (sort_key length ws)"

text \<open>Modelled from the spec: a reserved word or phrase is matched without regard to
  case, and a space of a phrase stands for any run of whitespace ("a multi-word
  reserved phrase written with irregular spacing/newlines").\<close>

fun reservedPhrase :: "string \<Rightarrow> rx" where
  "reservedPhrase [] = Eps"
| "reservedPhrase (c # cs) =
     Seq (if c = CHR 0x20 then OneOrMore (Chr isSpace)
          else Chr (\<lambda>x. upperChar x = upperChar c))
         (reservedPhrase cs)"

text \<open>Modelled from the spec: one of the words, not followed by a special identifier
  character, and ending at a word boundary.\<close>

definition specReservedWordRegex :: "string list \<Rightarrow> string \<Rightarrow> RegExp" where
  "specReservedWordRegex ws special =
     compile (Seq Bol (Seq (Grp (Alts (map reservedPhrase (sortByLengthDesc ws))))
                      (Seq (NotAhead (OneOrMore (Chr (\<lambda>c. c \<in> set special)))) Wordb)))"

text \<open>Modelled from the spec: an identifier is a run of word characters and of the
  configured special characters.\<close>

definition specIdentRegex :: "SpecialIdentChars option \<Rightarrow> RegExp" where
  "specIdentRegex sic =
     (let chars = (\<lambda>f. case sic of None \<Rightarrow> [] | Some x \<Rightarrow> orDefault (f x) [])
      in compile (Seq Bol (Grp (Seqs
           [Star (Chr (\<lambda>c. c \<in> set (chars sic_prefix))),
            OneOrMore (Chr (\<lambda>c. isWord c \<or> c \<in> set (chars sic_any))),
            Star (Chr (\<lambda>c. c \<in> set (chars sic_suffix)))]))))"

text \<open>Modelled from the spec: a quoting style is named by its opening and closing
  character; the quoted text runs to the closing character, a backslash escaping the
  character after it.\<close>

fun quotePattern :: "QuoteType \<Rightarrow> rx" where
  "quotePattern [q1, q2] =
     Seqs [Chr (\<lambda>c. c = q1),
           Star (Alt (Chr (\<lambda>c. c \<noteq> q2 \<and> c \<noteq> CHR 0x5C)) (Seq (Chr (\<lambda>c. c = CHR 0x5C)) (Chr anyChar))),
           Chr (\<lambda>c. c = q2)]"
| "quotePattern _ = Chr noChar"

definition specQuotePattern :: "QuoteType list \<Rightarrow> rx" where
  "specQuotePattern quoteTypes = Alts (map quotePattern quoteTypes)"

definition specQuoteRegex :: "QuoteType list \<Rightarrow> RegExp" where
  "specQuoteRegex quoteTypes = compile (Seq Bol (Grp (specQuotePattern quoteTypes)))"

text \<open>Modelled from the spec: one of the longer operators, or one of the
  single-character operators.\<close>

definition specOperatorRegex :: "string \<Rightarrow> string list \<Rightarrow> RegExp" where
  "specOperatorRegex monadOperators polyadOperators =
     compile (Seq Bol (Grp (Alt (Alts (map Lit (sortByLengthDesc polyadOperators)))
                                (Chr (\<lambda>c. c \<in> set monadOperators)))))"

definition specParenRegex :: "string list \<Rightarrow> RegExp" where
  "specParenRegex parens = compile (Seq Bol (Grp (Alts (map LitI parens))))"

text \<open>Modelled from the spec: a comment marker and the rest of the line, the line end
  not included.\<close>

definition specLineCommentRegex :: "string list \<Rightarrow> RegExp" where
  "specLineCommentRegex markers =
     compile (Seq Bol
       (Seq (Grp (Seq (Alts (map Lit markers))
                      (Lazy (Chr (\<lambda>c. c \<noteq> CHR 0x0A \<and> c \<noteq> CHR 0x0D)))))
            (Alts [Lit [CHR 0x0D, CHR 0x0A], Lit [CHR 0x0D], Lit [CHR 0x0A], Eol])))"

text \<open>Modelled from the spec: "prefix + pattern", and no pattern at all for a style
  without a configured prefix.\<close>

definition specPlaceholderRegex :: "string list \<Rightarrow> rx \<Rightarrow> RegExp option" where
  "specPlaceholderRegex types pattern =
     (if types = [] then None
      else Some (compile (Seq Bol (Grp (Seq (Alts (map Lit types)) pattern)))))"

definition specFactory :: RegexFactory where
  "specFactory =
     \<lparr>createIdentRegex = specIdentRegex,
      createQuoteRegex = specQuoteRegex,
      createQuotePattern = specQuotePattern,
      createReservedWordRegex = specReservedWordRegex,
      createOperatorRegex = specOperatorRegex,
      createParenRegex = specParenRegex,
      createLineCommentRegex = specLineCommentRegex,
      createPlaceholderRegex = specPlaceholderRegex\<rparr>"

text \<open>A small dialect for the examples: strings in single quotes, identifiers in
  double quotes, every placeholder style switched on.\<close>

definition exampleCfg :: TokenizerOptions where
  "exampleCfg =
     \<lparr>reservedKeywords = [''AS''],
      reservedCommands = [''SELECT'', ''FROM''],
      reservedLogicalOperators = None,
      reservedDependentClauses = [''WHEN''],
      reservedBinaryCommands = [''UNION ALL''],
      reservedJoinConditions = None,
      stringTypes = [[CHR 0x27, CHR 0x27]],
      identifierTypes = [[CHR 0x22, CHR 0x22]],
      blockStart = None,
      blockEnd = None,
      positionalPlaceholders = Some True,
      numberedPlaceholderTypes = Some ['':''],
      namedPlaceholderTypes = Some [''@''],
      quotedPlaceholderTypes = Some [''@''],
      lineCommentTypes = None,
      specialIdentChars = None,
      operators = None,
      cfg_preprocess = None\<rparr>"

definition exampleTokenizer :: Tokenizer where
  "exampleTokenizer = constructor specFactory exampleCfg"

subsection \<open>Notions used to state the properties\<close>

text \<open>Two syntactic checks on a pattern: \<open>consuming r\<close> holds when every match of \<open>r\<close>
  takes at least one character, \<open>nogrp r\<close> when \<open>r\<close> does not set group 1.\<close>

fun consuming :: "rx \<Rightarrow> bool" where
  "consuming (Chr P) = True"
| "consuming (Seq r1 r2) = (consuming r1 \<or> consuming r2)"
| "consuming (Alt r1 r2) = (consuming r1 \<and> consuming r2)"
| "consuming (Grp r) = consuming r"
| "consuming _ = False"

fun nogrp :: "rx \<Rightarrow> bool" where
  "nogrp (Seq r1 r2) = (nogrp r1 \<and> nogrp r2)"
| "nogrp (Alt r1 r2) = (nogrp r1 \<and> nogrp r2)"
| "nogrp (Star r) = nogrp r"
| "nogrp (Lazy r) = nogrp r"
| "nogrp (NotAhead r) = True"
| "nogrp (Grp r) = False"
| "nogrp _ = True"

text \<open>The contract of a pattern of the factory, as the specification has it: what it
  returns is a prefix of the input ("recognizes that category's longest valid prefix at
  the start of a string"), and it is not empty ("must always be non-empty for a
  successfully matched token").\<close>

definition prefixMatcher :: "RegExp \<Rightarrow> bool" where
  "prefixMatcher re = (\<forall>input t. re input = Some t \<longrightarrow> prefix t input)"

definition nonEmptyMatcher :: "RegExp \<Rightarrow> bool" where
  "nonEmptyMatcher re = (\<forall>input t. re input = Some t \<longrightarrow> t \<noteq> [])"

text \<open>The patterns that the constructor gets from the factory for a configuration, and
  all the patterns that a tokenizer tries.\<close>

definition factoryPatterns :: "RegexFactory \<Rightarrow> TokenizerOptions \<Rightarrow> RegExp list" where
  "factoryPatterns rf cfg =
     map (REGEX_MAP (constructor rf cfg))
       [LINE_COMMENT, STRING, BLOCK_START, BLOCK_END, RESERVED_COMMAND,
        RESERVED_BINARY_COMMAND, RESERVED_DEPENDENT_CLAUSE, RESERVED_LOGICAL_OPERATOR,
        RESERVED_KEYWORD, RESERVED_JOIN_CONDITION, IDENT, OPERATOR]
     @ [quotedIdentRegex (constructor rf cfg)]
     @ List.map_filter (\<lambda>x. x)
         [createPlaceholderRegex rf (orDefault (namedPlaceholderTypes cfg) [])
            (OneOrMore (Chr (\<lambda>c. isWord c \<or> c = CHR ''$''))),
          createPlaceholderRegex rf (orDefault (quotedPlaceholderTypes cfg) [])
            (createQuotePattern rf (identifierTypes cfg)),
          createPlaceholderRegex rf (orDefault (numberedPlaceholderTypes cfg) [])
            (OneOrMore (Chr isDigit))]"

definition patternsOf :: "Tokenizer \<Rightarrow> RegExp list" where
  "patternsOf tk =
     map (REGEX_MAP tk)
       [LINE_COMMENT, BLOCK_COMMENT, STRING, BLOCK_START, BLOCK_END, NUMBER,
        RESERVED_CASE_START, RESERVED_CASE_END, RESERVED_COMMAND, RESERVED_BINARY_COMMAND,
        RESERVED_DEPENDENT_CLAUSE, RESERVED_LOGICAL_OPERATOR, RESERVED_KEYWORD,
        RESERVED_JOIN_CONDITION, IDENT, OPERATOR]
     @ [quotedIdentRegex tk]
     @ map regex (placeholderPatterns tk)"

text \<open>The text that a token sequence stands for: every token's \<open>whitespaceBefore\<close>
  followed by its \<open>text\<close>, in order.\<close>

definition reassemble :: "Token list \<Rightarrow> string" where
  "reassemble toks = concat (map (\<lambda>t. orDefault (whitespaceBefore t) [] @ text t) toks)"

text \<open>The specification's reading of a priority cascade: of a list of attempts, the
  first that matched.\<close>

fun firstMatch :: "'a option list \<Rightarrow> 'a option" where
  "firstMatch [] = None"
| "firstMatch (None # xs) = firstMatch xs"
| "firstMatch (Some x # xs) = Some x"

text \<open>The scan positions of a run: \<open>scansTo tk (s, p) (s', p')\<close> holds when the loop, at the
  input \<open>s\<close> with the previous token \<open>p\<close>, gets after some iterations that each emit a
  token to the input \<open>s'\<close> with the previous token \<open>p'\<close>.\<close>

inductive scansTo :: "Tokenizer \<Rightarrow> string \<times> Token option \<Rightarrow> string \<times> Token option \<Rightarrow> bool"
  for tk :: Tokenizer where
  here: "scansTo tk pos pos"
| step: "s \<noteq> [] \<Longrightarrow> s1 = drop (length (getWhitespace s)) s \<Longrightarrow> s1 \<noteq> [] \<Longrightarrow>
         getNextToken tk s1 p = Some t \<Longrightarrow>
         scansTo tk (drop (length (text t)) s1, Some t) pos' \<Longrightarrow>
         scansTo tk (s, p) pos'"

text \<open>A post-processing hook that a configuration may carry: it closes the token
  sequence with an end-of-input token.\<close>

definition eofToken :: Token where
  "eofToken =
     \<lparr>type = EOF, text = ''<<EOF>>'', value = ''<<EOF>>'', key = None, whitespaceBefore = Some []\<rparr>"

definition appendEof :: "Token list \<Rightarrow> Token list" where
  "appendEof tokens = tokens @ [eofToken]"

text \<open>A configuration that the type of the options admits and that stalls the scan: the
  empty string among the opening brackets.\<close>

definition stallCfg :: TokenizerOptions where
  "stallCfg = exampleCfg\<lparr>blockStart := Some ['''']\<rparr>"

section \<open>Properties of the matcher\<close>

lemmas ms_Star = ms.simps(5)
lemmas ms_Lazy = ms.simps(6)

declare ms.simps(5) [simp del]
declare ms.simps(6) [simp del]

declare tokenizeLoop.simps [code]

lemma ms_suffix: "st' \<in> set (ms r st) \<Longrightarrow> suffix (rest st') (rest st)"
proof (induction r st arbitrary: st' rule: ms.induct)
  case (1 st)
  then show ?case by simp
next
  case (2 P st)
  then show ?case
    by (cases "rest st") (auto split: if_splits simp: suffix_Cons)
next
  case (3 r1 r2 st)
  from "3.prems" obtain st1 where a: "st1 \<in> set (ms r1 st)" and b: "st' \<in> set (ms r2 st1)"
    by auto
  from "3.IH"(1)[OF a] "3.IH"(2)[OF a b] show ?case by (rule suffix_order.trans[rotated])
next
  case (4 r1 r2 st)
  then show ?case by auto
next
  case (5 r st)
  from "5.prems" consider "st' = st"
    | st1 where "st1 \<in> set (ms r st)" "length (rest st1) < length (rest st)"
        "st' \<in> set (ms (Star r) st1)"
    by (subst (asm) ms_Star) (auto split: if_splits)
  then show ?case
  proof cases
    case 1
    then show ?thesis by simp
  next
    case 2
    from "5.IH"(1)[OF 2(1)] "5.IH"(2)[OF 2(1) 2(2) 2(3)] show ?thesis
      by (rule suffix_order.trans[rotated])
  qed
next
  case (6 r st)
  from "6.prems" consider "st' = st"
    | st1 where "st1 \<in> set (ms r st)" "length (rest st1) < length (rest st)"
        "st' \<in> set (ms (Lazy r) st1)"
    by (subst (asm) ms_Lazy) (auto split: if_splits)
  then show ?case
  proof cases
    case 1
    then show ?thesis by simp
  next
    case 2
    from "6.IH"(1)[OF 2(1)] "6.IH"(2)[OF 2(1) 2(2) 2(3)] show ?thesis
      by (rule suffix_order.trans[rotated])
  qed
next
  case (7 st)
  then show ?case by (simp split: if_splits)
next
  case (8 st)
  then show ?case by (simp split: if_splits)
next
  case (9 st)
  then show ?case by (simp split: if_splits)
next
  case (10 r st)
  then show ?case by (simp split: if_splits)
next
  case (11 r st)
  then show ?case by auto
qed

lemma ms_length: "st' \<in> set (ms r st) \<Longrightarrow> length (rest st') \<le> length (rest st)"
  by (drule ms_suffix) (rule suffix_length_le)

lemma ms_consuming:
  "consuming r \<Longrightarrow> st' \<in> set (ms r st) \<Longrightarrow> length (rest st') < length (rest st)"
proof (induction r arbitrary: st st')
  case (Chr P)
  then show ?case by (cases "rest st") (auto split: if_splits)
next
  case (Seq r1 r2)
  from Seq.prems(2) obtain st1 where a: "st1 \<in> set (ms r1 st)" and b: "st' \<in> set (ms r2 st1)"
    by auto
  from Seq.prems(1) have "consuming r1 \<or> consuming r2" by simp
  then show ?case
  proof
    assume "consuming r1"
    with Seq.IH(1) a have "length (rest st1) < length (rest st)" by blast
    with ms_length[OF b] show ?thesis by simp
  next
    assume "consuming r2"
    with Seq.IH(2) b have "length (rest st') < length (rest st1)" by blast
    with ms_length[OF a] show ?thesis by simp
  qed
next
  case (Alt r1 r2)
  then show ?case by auto
next
  case (Grp r)
  then show ?case by auto
qed simp_all

lemma ms_nogrp: "nogrp r \<Longrightarrow> st' \<in> set (ms r st) \<Longrightarrow> cap st' = cap st"
proof (induction r st arbitrary: st' rule: ms.induct)
  case (2 P st)
  then show ?case by (cases "rest st") (auto split: if_splits)
next
  case (3 r1 r2 st)
  then show ?case by auto
next
  case (5 r st)
  from "5.prems"(2) consider "st' = st"
    | st1 where "st1 \<in> set (ms r st)" "length (rest st1) < length (rest st)"
        "st' \<in> set (ms (Star r) st1)"
    by (subst (asm) ms_Star) (auto split: if_splits)
  then show ?case
  proof cases
    case 1
    then show ?thesis by simp
  next
    case 2
    with "5.IH" "5.prems"(1) show ?thesis by (metis nogrp.simps(3))
  qed
next
  case (6 r st)
  from "6.prems"(2) consider "st' = st"
    | st1 where "st1 \<in> set (ms r st)" "length (rest st1) < length (rest st)"
        "st' \<in> set (ms (Lazy r) st1)"
    by (subst (asm) ms_Lazy) (auto split: if_splits)
  then show ?case
  proof cases
    case 1
    then show ?thesis by simp
  next
    case 2
    with "6.IH" "6.prems"(1) show ?thesis by (metis nogrp.simps(4))
  qed
qed (auto split: if_splits)

lemma search_Bol: "search (Seq Bol r) (Some p) s = None"
  by (induction s arbitrary: p) auto

lemma take_diff_suffix: "suffix s' s \<Longrightarrow> prefix (take (length s - length s') s) s"
  by (simp add: take_is_prefix)

lemma ms_Bol_Seq: "ms (Seq Bol r) st = (if prev st = None then ms r st else [])"
  by auto

lemma search_anchored:
  "search (Seq Bol r) None input =
     (case ms r \<lparr>prev = None, rest = input, cap = None\<rparr> of [] \<Rightarrow> None | st # _ \<Rightarrow> Some st)"
proof (cases input)
  case Nil
  then show ?thesis by (simp add: ms_Bol_Seq del: ms.simps)
next
  case (Cons c cs)
  have "search (Seq Bol r) (Some c) cs = None" by (rule search_Bol)
  then show ?thesis
    unfolding Cons search.simps ms_Bol_Seq by (simp del: ms.simps split: list.splits)
qed

lemma compile_anchored:
  assumes "compile (Seq Bol (Seq (Grp body) post)) input = Some t" and "nogrp post"
  shows "prefix t input \<and> (consuming body \<longrightarrow> t \<noteq> [])"
proof -
  let ?st0 = "\<lparr>prev = None, rest = input, cap = None\<rparr>"
  from assms(1) obtain st sts where m: "ms (Seq (Grp body) post) ?st0 = st # sts"
    and c: "cap st = Some t"
    unfolding compile_def search_anchored by (auto split: list.splits option.splits)
  from m have "st \<in> set (ms (Seq (Grp body) post) ?st0)" by simp
  then obtain st1 where a: "st1 \<in> set (ms (Grp body) ?st0)" and d: "st \<in> set (ms post st1)"
    by auto
  from a obtain st2 where a2: "st2 \<in> set (ms body ?st0)"
      and b: "st1 = st2\<lparr>cap := Some (take (length input - length (rest st2)) input)\<rparr>"
    by auto
  from ms_nogrp[OF assms(2) d] b c have t: "t = take (length input - length (rest st2)) input"
    by simp
  have p: "prefix t input" unfolding t by (simp add: take_is_prefix)
  have "consuming body \<Longrightarrow> t \<noteq> []"
  proof -
    assume "consuming body"
    from ms_consuming[OF this a2] have "length (rest st2) < length input" by simp
    then show "t \<noteq> []" unfolding t by auto
  qed
  with p show ?thesis by blast
qed

lemma ms_Seq_Eps: "ms (Seq r Eps) st = ms r st"
proof -
  have "concat (map (ms Eps) xs) = xs" for xs
    by (induction xs) simp_all
  then show ?thesis by (simp only: ms.simps(3))
qed

lemma compile_anchored0:
  assumes "compile (Seq Bol (Grp body)) input = Some t"
  shows "prefix t input \<and> (consuming body \<longrightarrow> t \<noteq> [])"
proof -
  have "compile (Seq Bol (Seq (Grp body) Eps)) input = Some t"
    using assms unfolding compile_def search_anchored ms_Seq_Eps .
  then show ?thesis by (rule compile_anchored) simp
qed

lemma ms_Star_Chr_hd:
  "\<exists>p' sts. ms (Star (Chr P)) \<lparr>prev = p, rest = s, cap = c\<rparr>
       = \<lparr>prev = p', rest = dropWhile P s, cap = c\<rparr> # sts"
proof (induction s arbitrary: p)
  case Nil
  show ?case by (subst ms_Star) simp
next
  case (Cons x xs)
  show ?case
  proof (cases "P x")
    case True
    from Cons[of "Some x"] obtain p' sts where
      "ms (Star (Chr P)) \<lparr>prev = Some x, rest = xs, cap = c\<rparr>
         = \<lparr>prev = p', rest = dropWhile P xs, cap = c\<rparr> # sts" by blast
    with True show ?thesis by (subst ms_Star) simp
  next
    case False
    then show ?thesis by (subst ms_Star) simp
  qed
qed

lemma take_length_dropWhile:
  "take (length s - length (dropWhile P s)) s = takeWhile P s"
proof -
  have "length s - length (dropWhile P s) = length (takeWhile P s)"
    by (metis add_diff_cancel_right' length_append takeWhile_dropWhile_id)
  then show ?thesis by (simp add: takeWhile_eq_take[symmetric])
qed

lemma compile_WHITESPACE:
  "compile WHITESPACE_REGEX input =
     (if takeWhile isSpace input = [] then None else Some (takeWhile isSpace input))"
proof (cases input)
  case Nil
  then show ?thesis
    by (simp add: compile_def WHITESPACE_REGEX_def search_Bol OneOrMore_def)
next
  case (Cons x xs)
  show ?thesis
  proof (cases "isSpace x")
    case False
    with Cons show ?thesis
      by (simp add: compile_def WHITESPACE_REGEX_def search_Bol OneOrMore_def)
  next
    case True
    obtain p' sts where
      h: "ms (Star (Chr isSpace)) \<lparr>prev = Some x, rest = xs, cap = None\<rparr>
         = \<lparr>prev = p', rest = dropWhile isSpace xs, cap = None\<rparr> # sts"
      using ms_Star_Chr_hd by blast
    have "take (Suc (length xs) - length (dropWhile isSpace xs)) (x # xs)
            = x # takeWhile isSpace xs"
      using take_length_dropWhile[of "x # xs" isSpace] True by simp
    with Cons True h show ?thesis
      by (simp add: compile_def WHITESPACE_REGEX_def search_Bol OneOrMore_def)
  qed
qed

lemma getWhitespace_eq: "getWhitespace input = takeWhile isSpace input"
  by (simp add: getWhitespace_def compile_WHITESPACE)

section \<open>The cascade\<close>

lemma match_Some:
  "match input ty re f = Some t \<longleftrightarrow>
     (\<exists>m. re input = Some m \<and>
          t = \<lparr>type = ty, text = m, value = f m, key = None, whitespaceBefore = None\<rparr>)"
  by (auto simp: match_def split: option.splits)

lemma match_None: "match input ty re f = None \<longleftrightarrow> re input = None"
  by (simp add: match_def split: option.splits)

lemma orElse_Some: "orElse a b = Some t \<Longrightarrow> a = Some t \<or> b = Some t"
  by (simp add: orElse_def split: option.splits)

lemma matchPlaceholderLoop_Some:
  "matchPlaceholderLoop ps input = Some t \<Longrightarrow> \<exists>p \<in> set ps. regex p input = Some (text t)"
  by (induction ps) (auto simp: match_Some split: option.splits)

lemma matchToken_text: "matchToken tk ty input = Some t \<Longrightarrow> REGEX_MAP tk ty input = Some (text t)"
  by (auto simp: matchToken_def match_Some)

lemma matchReservedToken_text:
  "matchReservedToken tk ty input = Some t \<Longrightarrow> REGEX_MAP tk ty input = Some (text t)"
  by (auto simp: matchReservedToken_def match_Some)

lemma matchReservedWordToken_pattern:
  assumes "matchReservedWordToken tk input previousToken = Some t"
  shows "\<exists>re \<in> set (patternsOf tk). re input = Some (text t)"
proof -
  from assms have
    "\<exists>ty \<in> {RESERVED_CASE_START, RESERVED_CASE_END, RESERVED_COMMAND, RESERVED_BINARY_COMMAND,
        RESERVED_DEPENDENT_CLAUSE, RESERVED_LOGICAL_OPERATOR, RESERVED_KEYWORD,
        RESERVED_JOIN_CONDITION}. matchReservedToken tk ty input = Some t"
    unfolding matchReservedWordToken_def
    by (auto split: if_splits dest!: orElse_Some)
  then obtain ty where "REGEX_MAP tk ty input = Some (text t)"
    and "ty \<in> {RESERVED_CASE_START, RESERVED_CASE_END, RESERVED_COMMAND, RESERVED_BINARY_COMMAND,
        RESERVED_DEPENDENT_CLAUSE, RESERVED_LOGICAL_OPERATOR, RESERVED_KEYWORD,
        RESERVED_JOIN_CONDITION}"
    by (blast dest: matchReservedToken_text)
  then show ?thesis unfolding patternsOf_def by auto
qed

lemma getNextToken_pattern:
  assumes "getNextToken tk input previousToken = Some t"
  shows "\<exists>re \<in> set (patternsOf tk). re input = Some (text t)"
proof -
  from assms consider
      ty where "ty \<in> {LINE_COMMENT, BLOCK_COMMENT, STRING, BLOCK_START, BLOCK_END, NUMBER, IDENT, OPERATOR}"
        "matchToken tk ty input = Some t"
    | "matchQuotedIdentToken tk input = Some t"
    | "matchPlaceholderToken tk input = Some t"
    | "matchReservedWordToken tk input previousToken = Some t"
    unfolding getNextToken_def by (auto dest!: orElse_Some)
  then show ?thesis
  proof cases
    case 1
    from matchToken_text[OF 1(2)] 1(1) show ?thesis unfolding patternsOf_def by auto
  next
    case 2
    then show ?thesis by (auto simp: matchQuotedIdentToken_def match_Some patternsOf_def)
  next
    case 3
    then show ?thesis
      by (auto simp: matchPlaceholderToken_def patternsOf_def dest: matchPlaceholderLoop_Some)
  next
    case 4
    then show ?thesis by (rule matchReservedWordToken_pattern)
  qed
qed

lemma builtin_contract:
  assumes "re \<in> {compile BLOCK_COMMENT_REGEX, compile NUMBER_REGEX, compile CASE_START_REGEX,
                  compile CASE_END_REGEX, compile POSITIONAL_REGEX}"
  shows "prefixMatcher re \<and> nonEmptyMatcher re"
proof -
  have a: "consuming (Seq (Lit ''/*'') (Seq (Lazy (Chr anyChar)) (Alt (Lit ''*/'') Eol)))"
    by simp
  have b: "consuming (Alts
       [Seq (Lit ''0x'') (OneOrMore (Chr isHex)),
        Seq (Lit ''0b'') (OneOrMore (Chr (\<lambda>c. c \<in> set ''01''))),
        Seqs [Optional (Seq (Lit ''-'') (Star (Chr isSpace))),
              OneOrMore (Chr isDigit),
              Optional (Seq (Lit ''.'') (Star (Chr isDigit))),
              Optional (Seqs [Chr (\<lambda>c. c \<in> set ''eE''),
                              Optional (Chr (\<lambda>c. c \<in> set ''-+'')),
                              OneOrMore (Chr isDigit),
                              Optional (Seq (Lit ''.'') (OneOrMore (Chr isDigit)))])]])"
    by (simp add: OneOrMore_def Optional_def)
  have c: "consuming (LitI ''CASE'')" "consuming (LitI ''END'')" "consuming (Lit ''?'')"
    by simp_all
  from assms show ?thesis
    unfolding prefixMatcher_def nonEmptyMatcher_def
    using compile_anchored0[of "Seq (Lit ''/*'') (Seq (Lazy (Chr anyChar)) (Alt (Lit ''*/'') Eol))"]
      compile_anchored0[of "Lit ''?''"]
      compile_anchored[of "LitI ''CASE''" Wordb] compile_anchored[of "LitI ''END''" Wordb]
      compile_anchored0[of "Alts
       [Seq (Lit ''0x'') (OneOrMore (Chr isHex)),
        Seq (Lit ''0b'') (OneOrMore (Chr (\<lambda>c. c \<in> set ''01''))),
        Seqs [Optional (Seq (Lit ''-'') (Star (Chr isSpace))),
              OneOrMore (Chr isDigit),
              Optional (Seq (Lit ''.'') (Star (Chr isDigit))),
              Optional (Seqs [Chr (\<lambda>c. c \<in> set ''eE''),
                              Optional (Chr (\<lambda>c. c \<in> set ''-+'')),
                              OneOrMore (Chr isDigit),
                              Optional (Seq (Lit ''.'') (OneOrMore (Chr isDigit)))])]]"]
      a b c
    unfolding BLOCK_COMMENT_REGEX_def NUMBER_REGEX_def CASE_START_REGEX_def CASE_END_REGEX_def
      POSITIONAL_REGEX_def
    by (elim insertE emptyE) (simp_all only: nogrp.simps, blast+)
qed

lemma compile_NULL: "compile NULL_REGEX input = None"
proof -
  have "search NULL_REGEX p s = None" for p s
    by (induction s arbitrary: p) (simp_all add: NULL_REGEX_def)
  then show ?thesis by (simp add: compile_def)
qed

lemma patterns_constructor:
  assumes "re \<in> set (patternsOf (constructor rf cfg))"
  shows "re \<in> set (factoryPatterns rf cfg) \<or>
         re \<in> {compile BLOCK_COMMENT_REGEX, compile NUMBER_REGEX, compile CASE_START_REGEX,
                  compile CASE_END_REGEX, compile POSITIONAL_REGEX}"
  using assms
  unfolding patternsOf_def factoryPatterns_def
  by (auto simp: constructor_def excludePatternsWithoutRegexes_def List.map_filter_simps
      split: option.splits if_splits)

section \<open>The modelled factory keeps the contract\<close>

lemma anchored_contract:
  assumes "consuming body" and "nogrp post"
  shows "prefixMatcher (compile (Seq Bol (Seq (Grp body) post)))"
    and "nonEmptyMatcher (compile (Seq Bol (Seq (Grp body) post)))"
  using compile_anchored[OF _ assms(2), of body] assms(1)
  by (auto simp: prefixMatcher_def nonEmptyMatcher_def)

lemma anchored0_contract:
  assumes "consuming body"
  shows "prefixMatcher (compile (Seq Bol (Grp body)))"
    and "nonEmptyMatcher (compile (Seq Bol (Grp body)))"
  using compile_anchored0[of body] assms
  by (auto simp: prefixMatcher_def nonEmptyMatcher_def)

lemma consuming_Alts: "(\<And>r. r \<in> set rs \<Longrightarrow> consuming r) \<Longrightarrow> consuming (Alts rs)"
  by (induction rs rule: Alts.induct) auto

lemma consuming_Lit: "w \<noteq> [] \<Longrightarrow> consuming (Lit w)"
  by (cases w) auto

lemma consuming_LitI: "w \<noteq> [] \<Longrightarrow> consuming (LitI w)"
  by (cases w) auto

lemma consuming_reservedPhrase: "w \<noteq> [] \<Longrightarrow> consuming (reservedPhrase w)"
  by (cases w) (auto simp: OneOrMore_def)

lemma consuming_quotePattern: "consuming (quotePattern q)"
  by (induction q rule: quotePattern.induct) auto

lemma set_sortByLengthDesc: "set (sortByLengthDesc ws) = set ws"
  by (simp add: sortByLengthDesc_def)

lemma nogrp_Lit: "nogrp (Lit w)"
  by (induction w) auto

lemma specIdentRegex_contract:
  "prefixMatcher (specIdentRegex sic)" "nonEmptyMatcher (specIdentRegex sic)"
  unfolding specIdentRegex_def Let_def
  by (rule anchored0_contract; simp add: OneOrMore_def)+

lemma specQuoteRegex_contract:
  "prefixMatcher (specQuoteRegex qs)" "nonEmptyMatcher (specQuoteRegex qs)"
  unfolding specQuoteRegex_def specQuotePattern_def
  by (rule anchored0_contract; rule consuming_Alts; auto simp: consuming_quotePattern)+

lemma specReservedWordRegex_contract:
  assumes "[] \<notin> set ws"
  shows "prefixMatcher (specReservedWordRegex ws special)"
    "nonEmptyMatcher (specReservedWordRegex ws special)"
proof -
  have c: "consuming (Alts (map reservedPhrase (sortByLengthDesc ws)))"
    using assms
    by (intro consuming_Alts) (auto simp: set_sortByLengthDesc intro: consuming_reservedPhrase)
  show "prefixMatcher (specReservedWordRegex ws special)"
    "nonEmptyMatcher (specReservedWordRegex ws special)"
    unfolding specReservedWordRegex_def by (rule anchored_contract[OF c]; simp)+
qed

lemma specOperatorRegex_contract:
  assumes "[] \<notin> set polyad"
  shows "prefixMatcher (specOperatorRegex monad polyad)"
    "nonEmptyMatcher (specOperatorRegex monad polyad)"
proof -
  have "consuming (Alts (map Lit (sortByLengthDesc polyad)))"
    using assms by (intro consuming_Alts) (auto simp: set_sortByLengthDesc intro: consuming_Lit)
  then have c: "consuming (Alt (Alts (map Lit (sortByLengthDesc polyad))) (Chr (\<lambda>c. c \<in> set monad)))"
    by simp
  show "prefixMatcher (specOperatorRegex monad polyad)"
    "nonEmptyMatcher (specOperatorRegex monad polyad)"
    unfolding specOperatorRegex_def by (rule anchored0_contract[OF c])+
qed

lemma specParenRegex_contract:
  assumes "[] \<notin> set parens"
  shows "prefixMatcher (specParenRegex parens)" "nonEmptyMatcher (specParenRegex parens)"
proof -
  have c: "consuming (Alts (map LitI parens))"
    using assms by (intro consuming_Alts) (auto intro: consuming_LitI)
  show "prefixMatcher (specParenRegex parens)" "nonEmptyMatcher (specParenRegex parens)"
    unfolding specParenRegex_def by (rule anchored0_contract[OF c])+
qed

lemma specLineCommentRegex_contract:
  assumes "[] \<notin> set markers"
  shows "prefixMatcher (specLineCommentRegex markers)"
    "nonEmptyMatcher (specLineCommentRegex markers)"
proof -
  have "consuming (Alts (map Lit markers))"
    using assms by (intro consuming_Alts) (auto intro: consuming_Lit)
  then have c: "consuming (Seq (Alts (map Lit markers))
                      (Lazy (Chr (\<lambda>c. c \<noteq> CHR 0x0A \<and> c \<noteq> CHR 0x0D))))"
    by simp
  show "prefixMatcher (specLineCommentRegex markers)"
    "nonEmptyMatcher (specLineCommentRegex markers)"
    unfolding specLineCommentRegex_def by (rule anchored_contract[OF c]; simp)+
qed

lemma specPlaceholderRegex_contract:
  assumes "specPlaceholderRegex types pattern = Some re" and "[] \<notin> set types"
  shows "prefixMatcher re" "nonEmptyMatcher re"
proof -
  have "consuming (Alts (map Lit types))"
    using assms(2) by (intro consuming_Alts) (auto intro: consuming_Lit)
  then have c: "consuming (Seq (Alts (map Lit types)) pattern)" by simp
  from assms(1) have re: "re = compile (Seq Bol (Grp (Seq (Alts (map Lit types)) pattern)))"
    by (simp add: specPlaceholderRegex_def split: if_splits)
  show "prefixMatcher re" "nonEmptyMatcher re"
    unfolding re by (rule anchored0_contract[OF c])+
qed

lemma exampleCfg_contract:
  assumes "re \<in> set (factoryPatterns specFactory exampleCfg)"
  shows "prefixMatcher re \<and> nonEmptyMatcher re"
  using assms
  unfolding factoryPatterns_def
  by (auto simp: constructor_def specFactory_def exampleCfg_def orDefault_def
      specialIdentCharsAll_def List.map_filter_simps
      specIdentRegex_contract specQuoteRegex_contract specReservedWordRegex_contract
      specOperatorRegex_contract specParenRegex_contract specLineCommentRegex_contract
      intro: specPlaceholderRegex_contract split: option.splits)

section \<open>The scan loop\<close>

lemma tokenizeLoop_Nil: "tokenizeLoop tk [] token tokens = Some (Inr tokens)"
  by (subst tokenizeLoop.simps) simp

lemma preprocess_constructor:
  "preprocess (constructor rf cfg) = (case cfg_preprocess cfg of None \<Rightarrow> (\<lambda>tokens. tokens) | Some f \<Rightarrow> f)"
  by (simp add: constructor_def)

lemma drop_getWhitespace: "drop (length (getWhitespace input)) input = dropWhile isSpace input"
  by (simp add: getWhitespace_eq dropWhile_eq_drop)

lemma getWhitespace_split: "getWhitespace input @ dropWhile isSpace input = input"
  by (simp add: getWhitespace_eq)

lemma reassemble_Cons:
  "reassemble (t # ts) = orDefault (whitespaceBefore t) [] @ text t @ reassemble ts"
  by (simp add: reassemble_def)

lemma tokenizeLoop_lossless_aux:
  assumes "tokenizeLoop tk input token tokens = Some r"
  shows "\<forall>toks. r = Inr toks \<longrightarrow> (\<forall>re \<in> set (patternsOf tk). prefixMatcher re) \<longrightarrow>
           (\<exists>new ws. toks = tokens @ new \<and> reassemble new @ ws = input \<and> list_all isSpace ws)"
  using assms
proof (induction tk input token tokens r rule: tokenizeLoop.raw_induct[rotated 1, consumes 1, case_names loop])
  case (loop f tk input token tokens r)
  show ?case
  proof (intro allI impI)
    fix toks
    assume r: "r = Inr toks" and pm: "\<forall>re \<in> set (patternsOf tk). prefixMatcher re"
    show "\<exists>new ws. toks = tokens @ new \<and> reassemble new @ ws = input \<and> list_all isSpace ws"
    proof (cases "input = []")
      case True
      with loop(2) r have "toks = tokens" by simp
      with True show ?thesis by (intro exI[of _ "[]"]) (simp add: reassemble_def)
    next
      case False
      note ne = this
      let ?ws = "getWhitespace input"
      let ?in1 = "dropWhile isSpace input"
      note body = loop(2)[unfolded Let_def drop_getWhitespace]
      show ?thesis
      proof (cases "?in1 = []")
        case True
        with body ne have "f tk [] token tokens = Some r"
          by (simp del: dropWhile_eq_Nil_conv)
        from loop(1)[OF this] r pm obtain new ws where
          n: "toks = tokens @ new" "reassemble new @ ws = []" by blast
        from True have "list_all isSpace input"
          by (metis dropWhile_eq_Nil_conv list_all_iff)
        with n show ?thesis by (intro exI[of _ new] exI[of _ input]) simp
      next
        case False
        with body ne r obtain t where
          g: "getNextToken tk ?in1 token = Some t" and
          f: "f tk (drop (length (text t)) ?in1) (Some t)
                (tokens @ [t\<lparr>whitespaceBefore := Some ?ws\<rparr>]) = Some r"
          by (cases "getNextToken tk ?in1 token") (simp_all del: dropWhile_eq_Nil_conv)
        from loop(1)[OF f] r pm obtain new ws where
          n: "toks = (tokens @ [t\<lparr>whitespaceBefore := Some ?ws\<rparr>]) @ new"
             "reassemble new @ ws = drop (length (text t)) ?in1" "list_all isSpace ws"
          by blast
        from getNextToken_pattern[OF g] pm have "prefix (text t) ?in1"
          by (auto simp: prefixMatcher_def)
        then have "?in1 = text t @ drop (length (text t)) ?in1"
          by (metis append_eq_conv_conj prefix_def)
        with n(2) have "?in1 = text t @ reassemble new @ ws" by simp
        with getWhitespace_split[of input]
        have "reassemble (t\<lparr>whitespaceBefore := Some ?ws\<rparr> # new) @ ws = input"
          by (simp add: reassemble_Cons orDefault_def)
        with n(1,3) show ?thesis
          by (intro exI[of _ "t\<lparr>whitespaceBefore := Some ?ws\<rparr> # new"] exI[of _ ws]) simp
      qed
    qed
  qed
qed

lemma tokenizeLoop_unfold:
  "tokenizeLoop tk input token tokens =
     (if input = [] \<or> dropWhile isSpace input = [] then Some (Inr tokens)
      else case getNextToken tk (dropWhile isSpace input) token of
             None \<Rightarrow> Some (Inl (parseError (dropWhile isSpace input)))
           | Some t \<Rightarrow>
               tokenizeLoop tk (drop (length (text t)) (dropWhile isSpace input)) (Some t)
                 (tokens @ [t\<lparr>whitespaceBefore := Some (takeWhile isSpace input)\<rparr>]))"
proof -
  have "tokenizeLoop tk input token tokens =
     (if input \<noteq> [] then
        if dropWhile isSpace input \<noteq> [] then
          case getNextToken tk (dropWhile isSpace input) token of
            None \<Rightarrow> Some (Inl (parseError (dropWhile isSpace input)))
          | Some t \<Rightarrow>
              tokenizeLoop tk (drop (length (text t)) (dropWhile isSpace input)) (Some t)
                (tokens @ [t\<lparr>whitespaceBefore := Some (getWhitespace input)\<rparr>])
        else tokenizeLoop tk (dropWhile isSpace input) token tokens
      else Some (Inr tokens))"
    by (subst tokenizeLoop.simps) (simp only: Let_def drop_getWhitespace)
  also have "\<dots> = (if input = [] \<or> dropWhile isSpace input = [] then Some (Inr tokens)
      else case getNextToken tk (dropWhile isSpace input) token of
             None \<Rightarrow> Some (Inl (parseError (dropWhile isSpace input)))
           | Some t \<Rightarrow>
               tokenizeLoop tk (drop (length (text t)) (dropWhile isSpace input)) (Some t)
                 (tokens @ [t\<lparr>whitespaceBefore := Some (takeWhile isSpace input)\<rparr>]))"
    unfolding getWhitespace_eq
    by (cases "dropWhile isSpace input = []")
       (simp_all add: tokenizeLoop_Nil del: dropWhile_eq_Nil_conv)
  finally show ?thesis .
qed

lemma tokenizeLoop_terminates:
  assumes "\<forall>re \<in> set (patternsOf tk). nonEmptyMatcher re"
  shows "\<exists>r. tokenizeLoop tk input token tokens = Some r"
proof (induction "length input" arbitrary: input token tokens rule: less_induct)
  case less
  let ?in1 = "dropWhile isSpace input"
  show ?case
  proof (cases "input = [] \<or> ?in1 = []")
    case True
    then show ?thesis by (subst tokenizeLoop_unfold) (simp del: dropWhile_eq_Nil_conv)
  next
    case False
    note ne = this
    show ?thesis
    proof (cases "getNextToken tk ?in1 token")
      case None
      with ne show ?thesis
        by (subst tokenizeLoop_unfold) (simp del: dropWhile_eq_Nil_conv)
    next
      case (Some t)
      from getNextToken_pattern[OF Some] assms have "text t \<noteq> []"
        by (auto simp: nonEmptyMatcher_def)
      with ne have "length (drop (length (text t)) ?in1) < length ?in1"
        by (cases ?in1) (simp_all del: dropWhile_eq_Nil_conv)
      also have "\<dots> \<le> length input" by (rule length_dropWhile_le)
      finally obtain r where
        "tokenizeLoop tk (drop (length (text t)) ?in1) (Some t)
           (tokens @ [t\<lparr>whitespaceBefore := Some (takeWhile isSpace input)\<rparr>]) = Some r"
        using less by blast
      with ne Some show ?thesis
        by (subst tokenizeLoop_unfold) (simp del: dropWhile_eq_Nil_conv)
    qed
  qed
qed

lemma tokenizeLoop_error_sound:
  assumes "tokenizeLoop tk input token tokens = Some r"
  shows "\<forall>e. r = Inl e \<longrightarrow>
           (\<exists>s p. scansTo tk (input, token) (s, p) \<and> s \<noteq> [] \<and>
                  drop (length (getWhitespace s)) s \<noteq> [] \<and>
                  getNextToken tk (drop (length (getWhitespace s)) s) p = None \<and>
                  e = parseError (drop (length (getWhitespace s)) s))"
  using assms
proof (induction tk input token tokens r rule: tokenizeLoop.raw_induct[rotated 1, consumes 1, case_names loop])
  case (loop f tk input token tokens r)
  show ?case
  proof (intro allI impI)
    fix e
    assume r: "r = Inl e"
    let ?in1 = "drop (length (getWhitespace input)) input"
    note body = loop(2)[unfolded Let_def]
    from body r have ne: "input \<noteq> []" by (cases "input = []") simp_all
    show "\<exists>s p. scansTo tk (input, token) (s, p) \<and> s \<noteq> [] \<and>
                  drop (length (getWhitespace s)) s \<noteq> [] \<and>
                  getNextToken tk (drop (length (getWhitespace s)) s) p = None \<and>
                  e = parseError (drop (length (getWhitespace s)) s)"
    proof (cases "?in1 = []")
      case True
      with body ne have "f tk [] token tokens = Some r" by (simp add: Let_def del: drop_eq_Nil drop_eq_Nil2)
      from loop(1)[OF this] r obtain s p where "scansTo tk ([], token) (s, p)" "s \<noteq> []"
        by blast
      then have False by (cases rule: scansTo.cases) auto
      then show ?thesis ..
    next
      case False
      note ne1 = this
      show ?thesis
      proof (cases "getNextToken tk ?in1 token")
        case None
        with body ne ne1 r have "e = parseError ?in1" by (simp add: Let_def del: drop_eq_Nil drop_eq_Nil2)
        with None ne ne1 show ?thesis
          by (intro exI[of _ input] exI[of _ token]) (simp add: scansTo.here)
      next
        case (Some t)
        with loop(2) ne ne1 have
          "f tk (drop (length (text t)) ?in1) (Some t)
             (tokens @ [t\<lparr>whitespaceBefore := Some (getWhitespace input)\<rparr>]) = Some r"
          by (simp add: Let_def del: drop_eq_Nil drop_eq_Nil2)
        from loop(1)[OF this] r obtain s p where
          sp: "scansTo tk (drop (length (text t)) ?in1, Some t) (s, p)" "s \<noteq> []"
             "drop (length (getWhitespace s)) s \<noteq> []"
             "getNextToken tk (drop (length (getWhitespace s)) s) p = None"
             "e = parseError (drop (length (getWhitespace s)) s)"
          by blast
        from scansTo.step[OF ne refl ne1 Some sp(1)] sp(2-) show ?thesis by blast
      qed
    qed
  qed
qed

lemma tokenizeLoop_error_complete:
  assumes "scansTo tk pos pos'"
    and "fst pos' \<noteq> []"
    and "drop (length (getWhitespace (fst pos'))) (fst pos') \<noteq> []"
    and "getNextToken tk (drop (length (getWhitespace (fst pos'))) (fst pos')) (snd pos') = None"
  shows "tokenizeLoop tk (fst pos) (snd pos) tokens
           = Some (Inl (parseError (drop (length (getWhitespace (fst pos'))) (fst pos'))))"
  using assms
proof (induction arbitrary: tokens rule: scansTo.induct)
  case (here pos)
  then show ?case
    by (subst tokenizeLoop_unfold) (simp add: drop_getWhitespace del: dropWhile_eq_Nil_conv)
next
  case (step s s1 p t pos')
  from step.IH[OF step.prems, of "tokens @ [t\<lparr>whitespaceBefore := Some (takeWhile isSpace s)\<rparr>]"]
    step.hyps(1-4) show ?case
    by (subst tokenizeLoop_unfold) (simp add: drop_getWhitespace del: dropWhile_eq_Nil_conv)
qed

lemma constructor_prefix:
  assumes "\<forall>re \<in> set (factoryPatterns rf cfg). prefixMatcher re"
  shows "\<forall>re \<in> set (patternsOf (constructor rf cfg)). prefixMatcher re"
  using assms patterns_constructor[of _ rf cfg] builtin_contract by blast

lemma constructor_nonEmpty:
  assumes "\<forall>re \<in> set (factoryPatterns rf cfg). nonEmptyMatcher re"
  shows "\<forall>re \<in> set (patternsOf (constructor rf cfg)). nonEmptyMatcher re"
  using assms patterns_constructor[of _ rf cfg] builtin_contract by blast

text \<open>C1, as the claim has it, fails: whitespace at the end of the input is stripped and
  belongs to no token.\<close>

theorem C1_lossless_counterexample:
  "tokenize exampleTokenizer ''a  '' =
     Some (Inr [\<lparr>type = IDENT, text = ''a'', value = ''a'', key = None,
                  whitespaceBefore = Some []\<rparr>])
   \<and> reassemble [\<lparr>type = IDENT, text = ''a'', value = ''a'', key = None,
                    whitespaceBefore = Some []\<rparr>] \<noteq> ''a  ''"
  by code_simp

text \<open>C1 (amended): when no preprocess hook is configured and every pattern of the
  factory returns a prefix of the input it is run on, then for every input on which
  tokenize succeeds, concatenating in order every returned token's whitespaceBefore
  followed by its text gives the input without its trailing whitespace: the input is
  that concatenation followed by whitespace characters only.\<close>

theorem C1_lossless:
  assumes "\<forall>re \<in> set (factoryPatterns rf cfg). prefixMatcher re"
    and "cfg_preprocess cfg = None"
    and "tokenize (constructor rf cfg) input = Some (Inr toks)"
  shows "\<exists>ws. list_all isSpace ws \<and> reassemble toks @ ws = input"
proof -
  from assms(2,3) have "tokenizeLoop (constructor rf cfg) input None [] = Some (Inr toks)"
    by (auto simp: tokenize_def preprocess_constructor split: option.splits sum.splits)
  from tokenizeLoop_lossless_aux[OF this] constructor_prefix[OF assms(1)]
  show ?thesis by auto
qed

theorem C1_lossless_witness:
  "tokenize (constructor specFactory exampleCfg) ''select  a  '' =
     Some (Inr [\<lparr>type = RESERVED_COMMAND, text = ''select'', value = ''SELECT'', key = None,
                  whitespaceBefore = Some []\<rparr>,
                \<lparr>type = IDENT, text = ''a'', value = ''a'', key = None,
                  whitespaceBefore = Some ''  ''\<rparr>])
   \<and> (\<exists>ws. list_all isSpace ws \<and>
          reassemble [\<lparr>type = RESERVED_COMMAND, text = ''select'', value = ''SELECT'', key = None,
                        whitespaceBefore = Some []\<rparr>,
                      \<lparr>type = IDENT, text = ''a'', value = ''a'', key = None,
                        whitespaceBefore = Some ''  ''\<rparr>] @ ws = ''select  a  '')"
proof -
  have e: "tokenize (constructor specFactory exampleCfg) ''select  a  '' =
     Some (Inr [\<lparr>type = RESERVED_COMMAND, text = ''select'', value = ''SELECT'', key = None,
                  whitespaceBefore = Some []\<rparr>,
                \<lparr>type = IDENT, text = ''a'', value = ''a'', key = None,
                  whitespaceBefore = Some ''  ''\<rparr>])"
    by code_simp
  have c: "\<forall>re \<in> set (factoryPatterns specFactory exampleCfg). prefixMatcher re"
    using exampleCfg_contract by blast
  have p: "cfg_preprocess exampleCfg = None" by (simp add: exampleCfg_def)
  from C1_lossless[OF c p e] e show ?thesis by blast
qed

lemma stall_getNextToken:
  "getNextToken (constructor specFactory stallCfg) ''abc'' token =
     Some \<lparr>type = BLOCK_START, text = [], value = [], key = None, whitespaceBefore = None\<rparr>"
proof -
  have a: "matchToken (constructor specFactory stallCfg) LINE_COMMENT ''abc'' = None"
    by code_simp
  have b: "matchToken (constructor specFactory stallCfg) BLOCK_COMMENT ''abc'' = None"
    by code_simp
  have c: "matchToken (constructor specFactory stallCfg) STRING ''abc'' = None"
    by code_simp
  have d: "matchQuotedIdentToken (constructor specFactory stallCfg) ''abc'' = None"
    by code_simp
  have e: "matchToken (constructor specFactory stallCfg) BLOCK_START ''abc'' =
     Some \<lparr>type = BLOCK_START, text = [], value = [], key = None, whitespaceBefore = None\<rparr>"
    by code_simp
  show ?thesis by (simp add: getNextToken_def a b c d e orElse_def)
qed

lemma stall_loop:
  assumes "tokenizeLoop tk input token tokens = Some r"
  shows "\<not> (tk = constructor specFactory stallCfg \<and> input = ''abc'')"
  using assms
proof (induction tk input token tokens r rule: tokenizeLoop.raw_induct[rotated 1, consumes 1, case_names loop])
  case (loop f tk input token tokens r)
  show ?case
  proof
    assume h: "tk = constructor specFactory stallCfg \<and> input = ''abc''"
    have w: "getWhitespace ''abc'' = []" by code_simp
    from loop(2) h have "f (constructor specFactory stallCfg) ''abc''
        (Some \<lparr>type = BLOCK_START, text = [], value = [], key = None, whitespaceBefore = None\<rparr>)
        (tokens @ [\<lparr>type = BLOCK_START, text = [], value = [], key = None,
                     whitespaceBefore = Some []\<rparr>]) = Some r"
      by (simp add: w stall_getNextToken)
    from loop(1)[OF this] show False by simp
  qed
qed

text \<open>C4, as the claim has it, fails: nothing in \<open>match\<close> or \<open>tokenize\<close> turns down a match
  of length zero. With the empty string among the opening brackets, the bracket
  pattern matches the empty string at \<open>abc\<close>, the cursor does not move, and the call
  never returns.\<close>

theorem C4_terminates_counterexample:
  "getNextToken (constructor specFactory stallCfg) ''abc'' None =
     Some \<lparr>type = BLOCK_START, text = [], value = [], key = None, whitespaceBefore = None\<rparr> \<and>
   tokenize (constructor specFactory stallCfg) ''abc'' = None"
proof -
  have "tokenizeLoop (constructor specFactory stallCfg) ''abc'' None [] = None"
  proof (cases "tokenizeLoop (constructor specFactory stallCfg) ''abc'' None []")
    case None
    then show ?thesis .
  next
    case (Some r)
    from stall_loop[OF this] show ?thesis by simp
  qed
  then have "tokenize (constructor specFactory stallCfg) ''abc'' = None"
    by (simp add: tokenize_def)
  with stall_getNextToken[of None] show ?thesis by (rule conjI)
qed

text \<open>C4 (amended): when none of the patterns that the factory builds for the
  configuration can match the empty string, every call to tokenize terminates. The
  patterns written in the source never match the empty string; so an iteration of
  the loop that emits a token emits one with a non-empty text, advances the cursor
  by the length of that text and goes on with a strictly shorter input, and an
  iteration that finds only whitespace ends the loop. The code itself does not
  turn down a zero-length match: termination rests on the patterns.\<close>

theorem C4_terminates:
  assumes "\<forall>re \<in> set (factoryPatterns rf cfg). nonEmptyMatcher re"
  shows "(\<exists>r. tokenize (constructor rf cfg) input = Some r) \<and>
         (\<forall>s token tokens t.
             s \<noteq> [] \<longrightarrow> drop (length (getWhitespace s)) s \<noteq> [] \<longrightarrow>
             getNextToken (constructor rf cfg) (drop (length (getWhitespace s)) s) token = Some t
             \<longrightarrow>
               text t \<noteq> [] \<and>
               tokenizeLoop (constructor rf cfg) s token tokens =
                 tokenizeLoop (constructor rf cfg)
                   (drop (length (text t)) (drop (length (getWhitespace s)) s)) (Some t)
                   (tokens @ [t\<lparr>whitespaceBefore := Some (getWhitespace s)\<rparr>]) \<and>
               length (drop (length (text t)) (drop (length (getWhitespace s)) s)) < length s) \<and>
         (\<forall>s token tokens.
             drop (length (getWhitespace s)) s = [] \<longrightarrow>
               tokenizeLoop (constructor rf cfg) s token tokens = Some (Inr tokens)) \<and>
         (\<forall>re \<in> {compile BLOCK_COMMENT_REGEX, compile NUMBER_REGEX, compile CASE_START_REGEX,
                   compile CASE_END_REGEX, compile POSITIONAL_REGEX}. nonEmptyMatcher re)"
proof -
  let ?tk = "constructor rf cfg"
  note ne = constructor_nonEmpty[OF assms]
  from tokenizeLoop_terminates[OF ne, of input None "[]"]
  have a: "\<exists>r. tokenize ?tk input = Some r"
    by (auto simp: tokenize_def split: sum.splits)
  have b: "text t \<noteq> [] \<and>
      tokenizeLoop ?tk s token tokens =
        tokenizeLoop ?tk (drop (length (text t)) (drop (length (getWhitespace s)) s)) (Some t)
          (tokens @ [t\<lparr>whitespaceBefore := Some (getWhitespace s)\<rparr>]) \<and>
      length (drop (length (text t)) (drop (length (getWhitespace s)) s)) < length s"
    if s: "s \<noteq> []" and s1: "drop (length (getWhitespace s)) s \<noteq> []"
      and g: "getNextToken ?tk (drop (length (getWhitespace s)) s) token = Some t"
    for s token tokens t
  proof -
    from getNextToken_pattern[OF g] ne have t: "text t \<noteq> []"
      by (auto simp: nonEmptyMatcher_def)
    from s1 have s1': "dropWhile isSpace s \<noteq> []" unfolding drop_getWhitespace .
    from g have g': "getNextToken ?tk (dropWhile isSpace s) token = Some t"
      unfolding drop_getWhitespace .
    have u: "tokenizeLoop ?tk s token tokens =
        tokenizeLoop ?tk (drop (length (text t)) (dropWhile isSpace s)) (Some t)
          (tokens @ [t\<lparr>whitespaceBefore := Some (takeWhile isSpace s)\<rparr>])"
      using s s1' g' by (subst tokenizeLoop_unfold) (simp del: dropWhile_eq_Nil_conv)
    from t s1' have "length (drop (length (text t)) (dropWhile isSpace s)) < length (dropWhile isSpace s)"
      by (cases "dropWhile isSpace s") (simp_all del: dropWhile_eq_Nil_conv)
    also have "\<dots> \<le> length s" by (rule length_dropWhile_le)
    finally have l: "length (drop (length (text t)) (dropWhile isSpace s)) < length s" .
    show ?thesis unfolding getWhitespace_eq dropWhile_eq_drop[symmetric]
      using t u l by blast
  qed
  have c: "tokenizeLoop ?tk s token tokens = Some (Inr tokens)"
    if "drop (length (getWhitespace s)) s = []" for s token tokens
  proof -
    from that have "dropWhile isSpace s = []" unfolding drop_getWhitespace .
    then show ?thesis by (subst tokenizeLoop_unfold) (simp del: dropWhile_eq_Nil_conv)
  qed
  have d: "\<forall>re \<in> {compile BLOCK_COMMENT_REGEX, compile NUMBER_REGEX, compile CASE_START_REGEX,
                   compile CASE_END_REGEX, compile POSITIONAL_REGEX}. nonEmptyMatcher re"
    using builtin_contract by blast
  from a b c d show ?thesis by blast
qed

theorem C4_terminates_witness:
  "(\<exists>r. tokenize (constructor specFactory exampleCfg) ''select a # b'' = Some r) \<and>
   getNextToken (constructor specFactory exampleCfg) ''a # b'' None =
     Some \<lparr>type = IDENT, text = ''a'', value = ''a'', key = None, whitespaceBefore = None\<rparr> \<and>
   tokenizeLoop (constructor specFactory exampleCfg) '' a # b'' None [] =
     tokenizeLoop (constructor specFactory exampleCfg) '' # b''
       (Some \<lparr>type = IDENT, text = ''a'', value = ''a'', key = None, whitespaceBefore = None\<rparr>)
       [\<lparr>type = IDENT, text = ''a'', value = ''a'', key = None, whitespaceBefore = Some '' ''\<rparr>] \<and>
   length '' # b'' < length '' a # b''"
proof -
  have c: "\<forall>re \<in> set (factoryPatterns specFactory exampleCfg). nonEmptyMatcher re"
    using exampleCfg_contract by blast
  have w: "getWhitespace '' a # b'' = '' ''" by code_simp
  have g: "getNextToken (constructor specFactory exampleCfg) ''a # b'' None =
     Some \<lparr>type = IDENT, text = ''a'', value = ''a'', key = None, whitespaceBefore = None\<rparr>"
    by code_simp
  note t = C4_terminates[OF c, of "''select a # b''"]
  from t have t1: "\<exists>r. tokenize (constructor specFactory exampleCfg) ''select a # b'' = Some r"
    by (rule conjunct1)
  from t[THEN conjunct2, THEN conjunct1, rule_format, of "'' a # b''" None
      "\<lparr>type = IDENT, text = ''a'', value = ''a'', key = None, whitespaceBefore = None\<rparr>" "[]"]
    w g
  have t2: "tokenizeLoop (constructor specFactory exampleCfg) '' a # b'' None [] =
     tokenizeLoop (constructor specFactory exampleCfg) '' # b''
       (Some \<lparr>type = IDENT, text = ''a'', value = ''a'', key = None, whitespaceBefore = None\<rparr>)
       [\<lparr>type = IDENT, text = ''a'', value = ''a'', key = None, whitespaceBefore = Some '' ''\<rparr>]"
    by simp
  have l: "length '' # b'' < length '' a # b''" by simp
  show ?thesis by (rule conjI[OF t1 conjI[OF g conjI[OF t2 l]]])
qed

text \<open>C5: tokenize raises an error exactly when the scan gets to a position where,
  after the whitespace is stripped, input is left and no category of the cascade
  matches it. The error is the only one there is; its message quotes the first 100
  characters at most of the input that is left; and a call that fails returns no
  tokens.\<close>

theorem C5_single_failure:
  "(tokenize tk input = Some (Inl e) \<longleftrightarrow>
      (\<exists>s p. scansTo tk (input, None) (s, p) \<and> s \<noteq> [] \<and>
             drop (length (getWhitespace s)) s \<noteq> [] \<and>
             getNextToken tk (drop (length (getWhitespace s)) s) p = None \<and>
             e = parseError (drop (length (getWhitespace s)) s))) \<and>
   (\<exists>snippet. parseError u = Error (''Parse error: Unexpected '' @ [CHR 0x22] @ snippet @ [CHR 0x22])
        \<and> prefix snippet u \<and> length snippet \<le> 100) \<and>
   (tokenize tk input = Some (Inl e) \<longrightarrow> (\<forall>toks. tokenize tk input \<noteq> Some (Inr toks)))"
proof -
  have l: "tokenize tk input = Some (Inl e) \<longleftrightarrow> tokenizeLoop tk input None [] = Some (Inl e)"
    by (auto simp: tokenize_def split: option.splits sum.splits)
  have a: "tokenize tk input = Some (Inl e) \<longleftrightarrow>
      (\<exists>s p. scansTo tk (input, None) (s, p) \<and> s \<noteq> [] \<and>
             drop (length (getWhitespace s)) s \<noteq> [] \<and>
             getNextToken tk (drop (length (getWhitespace s)) s) p = None \<and>
             e = parseError (drop (length (getWhitespace s)) s))"
    unfolding l
  proof
    assume "tokenizeLoop tk input None [] = Some (Inl e)"
    from tokenizeLoop_error_sound[OF this] show "\<exists>s p. scansTo tk (input, None) (s, p) \<and> s \<noteq> [] \<and>
             drop (length (getWhitespace s)) s \<noteq> [] \<and>
             getNextToken tk (drop (length (getWhitespace s)) s) p = None \<and>
             e = parseError (drop (length (getWhitespace s)) s)" by blast
  next
    assume "\<exists>s p. scansTo tk (input, None) (s, p) \<and> s \<noteq> [] \<and>
             drop (length (getWhitespace s)) s \<noteq> [] \<and>
             getNextToken tk (drop (length (getWhitespace s)) s) p = None \<and>
             e = parseError (drop (length (getWhitespace s)) s)"
    then obtain s p where sp: "scansTo tk (input, None) (s, p)" "s \<noteq> []"
      "drop (length (getWhitespace s)) s \<noteq> []"
      "getNextToken tk (drop (length (getWhitespace s)) s) p = None"
      "e = parseError (drop (length (getWhitespace s)) s)" by blast
    from tokenizeLoop_error_complete[OF sp(1), of "[]"] sp(2-)
    show "tokenizeLoop tk input None [] = Some (Inl e)" by simp
  qed
  have b: "\<exists>snippet. parseError u = Error (''Parse error: Unexpected '' @ [CHR 0x22] @ snippet @ [CHR 0x22])
        \<and> prefix snippet u \<and> length snippet \<le> 100"
    by (intro exI[of _ "take 100 u"]) (simp add: parseError_def take_is_prefix)
  have c: "tokenize tk input = Some (Inl e) \<longrightarrow> (\<forall>toks. tokenize tk input \<noteq> Some (Inr toks))"
    by simp
  show ?thesis by (rule conjI[OF a conjI[OF b c]])
qed

theorem C5_single_failure_witness:
  "tokenize exampleTokenizer ''a # b'' =
     Some (Inl (Error (''Parse error: Unexpected '' @ [CHR 0x22] @ ''# b'' @ [CHR 0x22]))) \<and>
   (\<exists>s p. scansTo exampleTokenizer (''a # b'', None) (s, p) \<and> s \<noteq> [] \<and>
          drop (length (getWhitespace s)) s \<noteq> [] \<and>
          getNextToken exampleTokenizer (drop (length (getWhitespace s)) s) p = None \<and>
          Error (''Parse error: Unexpected '' @ [CHR 0x22] @ ''# b'' @ [CHR 0x22])
            = parseError (drop (length (getWhitespace s)) s))"
proof -
  have e: "tokenize exampleTokenizer ''a # b'' =
     Some (Inl (Error (''Parse error: Unexpected '' @ [CHR 0x22] @ ''# b'' @ [CHR 0x22])))"
    by code_simp
  from C5_single_failure[of exampleTokenizer "''a # b''"
      "Error (''Parse error: Unexpected '' @ [CHR 0x22] @ ''# b'' @ [CHR 0x22])"] e
  show ?thesis by blast
qed

text \<open>C9, as the claim has it, fails: the token sequence of the empty input goes through
  the configured hook, and a hook may add tokens.\<close>

theorem C9_empty_input_counterexample:
  "tokenize (constructor specFactory (exampleCfg\<lparr>cfg_preprocess := Some appendEof\<rparr>)) []
     \<noteq> Some (Inr [])"
  by (simp add: tokenize_def tokenizeLoop_Nil preprocess_constructor appendEof_def)

text \<open>C9 (amended): tokenizing the empty input raises no error and returns what the
  preprocess hook makes of the empty token sequence; that is the empty sequence when
  no hook is configured.\<close>

theorem C9_empty_input:
  "tokenize (constructor rf cfg) [] =
     Some (Inr (case cfg_preprocess cfg of None \<Rightarrow> [] | Some f \<Rightarrow> f []))"
  by (simp add: tokenize_def tokenizeLoop_Nil preprocess_constructor split: option.splits)

section \<open>The priority cascade\<close>

lemma firstMatch_Cons: "firstMatch (a # xs) = orElse a (firstMatch xs)"
  by (cases a) (simp_all add: orElse_def)

lemma orElse_None: "orElse a None = a"
  by (cases a) (simp_all add: orElse_def)

lemma getNextToken_firstMatch:
  "getNextToken tk input previousToken =
     firstMatch
       [matchToken tk LINE_COMMENT input, matchToken tk BLOCK_COMMENT input,
        matchToken tk STRING input, matchQuotedIdentToken tk input,
        matchToken tk BLOCK_START input, matchToken tk BLOCK_END input,
        matchPlaceholderToken tk input, matchToken tk NUMBER input,
        matchReservedWordToken tk input previousToken, matchToken tk IDENT input,
        matchToken tk OPERATOR input]"
  by (simp only: getNextToken_def firstMatch_Cons firstMatch.simps(1) orElse_None)

lemma matchReservedWordToken_firstMatch:
  "matchReservedWordToken tk input previousToken =
     (if map_option value previousToken = Some ''.'' then None
      else firstMatch
        [matchReservedToken tk RESERVED_CASE_START input,
         matchReservedToken tk RESERVED_CASE_END input,
         matchReservedToken tk RESERVED_COMMAND input,
         matchReservedToken tk RESERVED_BINARY_COMMAND input,
         matchReservedToken tk RESERVED_DEPENDENT_CLAUSE input,
         matchReservedToken tk RESERVED_LOGICAL_OPERATOR input,
         matchReservedToken tk RESERVED_KEYWORD input,
         matchReservedToken tk RESERVED_JOIN_CONDITION input])"
  by (simp only: matchReservedWordToken_def firstMatch_Cons firstMatch.simps(1) orElse_None)

lemma matchPlaceholderLoop_None:
  "matchPlaceholderLoop ps input = None \<longleftrightarrow> (\<forall>p \<in> set ps. regex p input = None)"
  by (induction ps) (auto simp: match_def split: option.splits)

lemma matchPlaceholderLoop_type:
  "matchPlaceholderLoop ps input = Some t \<Longrightarrow> type t = PLACEHOLDER"
  by (induction ps) (auto simp: match_def split: option.splits)

text \<open>C2: \<open>getNextToken\<close> returns the first match of the eleven categories in the order
  line comment, block comment, string, quoted identifier, open bracket, close bracket,
  placeholder, number, reserved word, identifier, operator, whatever the lengths of
  the matches; the reserved-word step returns the first match of its eight
  subcategories in the order CASE start, CASE end, command, binary command, dependent
  clause, logical operator, keyword, join condition. Every attempt matches exactly
  when the pattern of its category does, and gives a token of that category.\<close>

theorem C2_priority_cascade:
  "getNextToken tk input previousToken =
     firstMatch
       [matchToken tk LINE_COMMENT input, matchToken tk BLOCK_COMMENT input,
        matchToken tk STRING input, matchQuotedIdentToken tk input,
        matchToken tk BLOCK_START input, matchToken tk BLOCK_END input,
        matchPlaceholderToken tk input, matchToken tk NUMBER input,
        matchReservedWordToken tk input previousToken, matchToken tk IDENT input,
        matchToken tk OPERATOR input] \<and>
   matchReservedWordToken tk input previousToken =
     (if map_option value previousToken = Some ''.'' then None
      else firstMatch
        [matchReservedToken tk RESERVED_CASE_START input,
         matchReservedToken tk RESERVED_CASE_END input,
         matchReservedToken tk RESERVED_COMMAND input,
         matchReservedToken tk RESERVED_BINARY_COMMAND input,
         matchReservedToken tk RESERVED_DEPENDENT_CLAUSE input,
         matchReservedToken tk RESERVED_LOGICAL_OPERATOR input,
         matchReservedToken tk RESERVED_KEYWORD input,
         matchReservedToken tk RESERVED_JOIN_CONDITION input]) \<and>
   (\<forall>ty. (matchToken tk ty input = None \<longleftrightarrow> REGEX_MAP tk ty input = None) \<and>
         (matchReservedToken tk ty input = None \<longleftrightarrow> REGEX_MAP tk ty input = None) \<and>
         (\<forall>t. matchToken tk ty input = Some t \<or> matchReservedToken tk ty input = Some t
               \<longrightarrow> type t = ty \<and> REGEX_MAP tk ty input = Some (text t))) \<and>
   (matchQuotedIdentToken tk input = None \<longleftrightarrow> quotedIdentRegex tk input = None) \<and>
   (matchPlaceholderToken tk input = None \<longleftrightarrow>
      (\<forall>p \<in> set (placeholderPatterns tk). regex p input = None)) \<and>
   (\<forall>t. matchPlaceholderToken tk input = Some t \<longrightarrow> type t = PLACEHOLDER)"
proof -
  have a: "(matchToken tk ty input = None \<longleftrightarrow> REGEX_MAP tk ty input = None) \<and>
         (matchReservedToken tk ty input = None \<longleftrightarrow> REGEX_MAP tk ty input = None) \<and>
         (\<forall>t. matchToken tk ty input = Some t \<or> matchReservedToken tk ty input = Some t
               \<longrightarrow> type t = ty \<and> REGEX_MAP tk ty input = Some (text t))" for ty
    by (auto simp: matchToken_def matchReservedToken_def match_None match_Some)
  have b: "matchQuotedIdentToken tk input = None \<longleftrightarrow> quotedIdentRegex tk input = None"
    by (simp add: matchQuotedIdentToken_def match_None)
  have c: "matchPlaceholderToken tk input = None \<longleftrightarrow>
      (\<forall>p \<in> set (placeholderPatterns tk). regex p input = None)"
    by (simp add: matchPlaceholderToken_def matchPlaceholderLoop_None)
  have d: "\<forall>t. matchPlaceholderToken tk input = Some t \<longrightarrow> type t = PLACEHOLDER"
    by (auto simp: matchPlaceholderToken_def dest: matchPlaceholderLoop_type)
  from a have a': "\<forall>ty. (matchToken tk ty input = None \<longleftrightarrow> REGEX_MAP tk ty input = None) \<and>
         (matchReservedToken tk ty input = None \<longleftrightarrow> REGEX_MAP tk ty input = None) \<and>
         (\<forall>t. matchToken tk ty input = Some t \<or> matchReservedToken tk ty input = Some t
               \<longrightarrow> type t = ty \<and> REGEX_MAP tk ty input = Some (text t))" by blast
  show ?thesis
    by (rule conjI[OF getNextToken_firstMatch conjI[OF matchReservedWordToken_firstMatch
          conjI[OF a' conjI[OF b conjI[OF c d]]]]])
qed

text \<open>The witness: at \<open>1abc\<close> the number category wins with the one character \<open>1\<close>,
  though the identifier pattern, lower in the order, matches all four.\<close>

theorem C2_priority_cascade_witness:
  "firstMatch
       [matchToken exampleTokenizer LINE_COMMENT ''1abc'',
        matchToken exampleTokenizer BLOCK_COMMENT ''1abc'',
        matchToken exampleTokenizer STRING ''1abc'', matchQuotedIdentToken exampleTokenizer ''1abc'',
        matchToken exampleTokenizer BLOCK_START ''1abc'',
        matchToken exampleTokenizer BLOCK_END ''1abc'',
        matchPlaceholderToken exampleTokenizer ''1abc'', matchToken exampleTokenizer NUMBER ''1abc'',
        matchReservedWordToken exampleTokenizer ''1abc'' None,
        matchToken exampleTokenizer IDENT ''1abc'',
        matchToken exampleTokenizer OPERATOR ''1abc'']
     = Some \<lparr>type = NUMBER, text = ''1'', value = ''1'', key = None, whitespaceBefore = None\<rparr> \<and>
   matchToken exampleTokenizer IDENT ''1abc''
     = Some \<lparr>type = IDENT, text = ''1abc'', value = ''1abc'', key = None,
              whitespaceBefore = None\<rparr>"
proof -
  have g: "getNextToken exampleTokenizer ''1abc'' None
     = Some \<lparr>type = NUMBER, text = ''1'', value = ''1'', key = None, whitespaceBefore = None\<rparr>"
    by code_simp
  have i: "matchToken exampleTokenizer IDENT ''1abc''
     = Some \<lparr>type = IDENT, text = ''1abc'', value = ''1abc'', key = None,
              whitespaceBefore = None\<rparr>"
    by code_simp
  from C2_priority_cascade[of exampleTokenizer "''1abc''" None] g i show ?thesis by simp
qed

lemma firstMatch_type:
  "firstMatch xs = Some t \<Longrightarrow> \<exists>x \<in> set xs. x = Some t"
  by (induction xs rule: firstMatch.induct) auto

text \<open>C3: when the value of the previous token is \<open>.\<close>, no reserved-word category is
  tried: the reserved-word step yields nothing, the next token is the first match of
  the other categories, and so never of a reserved type; a word that is not a
  comment, string, quoted identifier, bracket, placeholder or number is an identifier
  if the identifier pattern matches it. On the example dialect, which has \<open>FROM\<close> as a
  reserved command, \<open>mytable.from\<close> is the identifier \<open>mytable\<close>, the operator \<open>.\<close> and the
  identifier \<open>from\<close>, while \<open>from\<close> alone is a reserved command.\<close>

theorem C3_dot_guard:
  "(map_option value previousToken = Some ''.'' \<longrightarrow>
      matchReservedWordToken tk input previousToken = None \<and>
      getNextToken tk input previousToken =
        firstMatch
          [matchToken tk LINE_COMMENT input, matchToken tk BLOCK_COMMENT input,
           matchToken tk STRING input, matchQuotedIdentToken tk input,
           matchToken tk BLOCK_START input, matchToken tk BLOCK_END input,
           matchPlaceholderToken tk input, matchToken tk NUMBER input,
           matchToken tk IDENT input, matchToken tk OPERATOR input] \<and>
      (\<forall>t. getNextToken tk input previousToken = Some t \<longrightarrow>
           type t \<in> {LINE_COMMENT, BLOCK_COMMENT, STRING, IDENT, BLOCK_START, BLOCK_END,
                      PLACEHOLDER, NUMBER, OPERATOR})) \<and>
   tokenize exampleTokenizer ''mytable.from'' =
     Some (Inr [\<lparr>type = IDENT, text = ''mytable'', value = ''mytable'', key = None,
                  whitespaceBefore = Some []\<rparr>,
                \<lparr>type = OPERATOR, text = ''.'', value = ''.'', key = None,
                  whitespaceBefore = Some []\<rparr>,
                \<lparr>type = IDENT, text = ''from'', value = ''from'', key = None,
                  whitespaceBefore = Some []\<rparr>]) \<and>
   tokenize exampleTokenizer ''from'' =
     Some (Inr [\<lparr>type = RESERVED_COMMAND, text = ''from'', value = ''FROM'', key = None,
                  whitespaceBefore = Some []\<rparr>])"
proof -
  have a: "matchReservedWordToken tk input previousToken = None \<and>
      getNextToken tk input previousToken =
        firstMatch
          [matchToken tk LINE_COMMENT input, matchToken tk BLOCK_COMMENT input,
           matchToken tk STRING input, matchQuotedIdentToken tk input,
           matchToken tk BLOCK_START input, matchToken tk BLOCK_END input,
           matchPlaceholderToken tk input, matchToken tk NUMBER input,
           matchToken tk IDENT input, matchToken tk OPERATOR input] \<and>
      (\<forall>t. getNextToken tk input previousToken = Some t \<longrightarrow>
           type t \<in> {LINE_COMMENT, BLOCK_COMMENT, STRING, IDENT, BLOCK_START, BLOCK_END,
                      PLACEHOLDER, NUMBER, OPERATOR})"
    if dot: "map_option value previousToken = Some ''.''"
  proof -
    from dot have r: "matchReservedWordToken tk input previousToken = None"
      by (simp add: matchReservedWordToken_def)
    have g: "getNextToken tk input previousToken =
        firstMatch
          [matchToken tk LINE_COMMENT input, matchToken tk BLOCK_COMMENT input,
           matchToken tk STRING input, matchQuotedIdentToken tk input,
           matchToken tk BLOCK_START input, matchToken tk BLOCK_END input,
           matchPlaceholderToken tk input, matchToken tk NUMBER input,
           matchToken tk IDENT input, matchToken tk OPERATOR input]"
      unfolding getNextToken_firstMatch r by (simp only: firstMatch_Cons orElse_def option.case)
    have ty: "type t \<in> {LINE_COMMENT, BLOCK_COMMENT, STRING, IDENT, BLOCK_START, BLOCK_END,
                      PLACEHOLDER, NUMBER, OPERATOR}"
      if "getNextToken tk input previousToken = Some t" for t
    proof -
      from that[unfolded g] have "\<exists>x \<in> set [matchToken tk LINE_COMMENT input, matchToken tk BLOCK_COMMENT input,
           matchToken tk STRING input, matchQuotedIdentToken tk input,
           matchToken tk BLOCK_START input, matchToken tk BLOCK_END input,
           matchPlaceholderToken tk input, matchToken tk NUMBER input,
           matchToken tk IDENT input, matchToken tk OPERATOR input]. x = Some t"
        by (rule firstMatch_type)
      moreover have "type t = ty" if "Some t = matchToken tk ty input" for ty
        using that[symmetric] by (auto simp: matchToken_def match_Some)
      moreover have "type t = IDENT" if "Some t = matchQuotedIdentToken tk input"
        using that[symmetric] by (auto simp: matchQuotedIdentToken_def match_Some)
      moreover have "type t = PLACEHOLDER" if "Some t = matchPlaceholderToken tk input"
        using that[symmetric] by (auto simp: matchPlaceholderToken_def dest: matchPlaceholderLoop_type)
      ultimately show ?thesis by auto
    qed
    from r g ty show ?thesis by blast
  qed
  have b: "tokenize exampleTokenizer ''mytable.from'' =
     Some (Inr [\<lparr>type = IDENT, text = ''mytable'', value = ''mytable'', key = None,
                  whitespaceBefore = Some []\<rparr>,
                \<lparr>type = OPERATOR, text = ''.'', value = ''.'', key = None,
                  whitespaceBefore = Some []\<rparr>,
                \<lparr>type = IDENT, text = ''from'', value = ''from'', key = None,
                  whitespaceBefore = Some []\<rparr>])"
    by code_simp
  have c: "tokenize exampleTokenizer ''from'' =
     Some (Inr [\<lparr>type = RESERVED_COMMAND, text = ''from'', value = ''FROM'', key = None,
                  whitespaceBefore = Some []\<rparr>])"
    by code_simp
  from a b c show ?thesis by blast
qed

theorem C3_dot_guard_witness:
  "matchReservedWordToken exampleTokenizer ''from''
      (Some \<lparr>type = OPERATOR, text = ''.'', value = ''.'', key = None, whitespaceBefore = None\<rparr>)
     = None \<and>
   getNextToken exampleTokenizer ''from''
      (Some \<lparr>type = OPERATOR, text = ''.'', value = ''.'', key = None, whitespaceBefore = None\<rparr>)
     = Some \<lparr>type = IDENT, text = ''from'', value = ''from'', key = None, whitespaceBefore = None\<rparr> \<and>
   getNextToken exampleTokenizer ''from'' None
     = Some \<lparr>type = RESERVED_COMMAND, text = ''from'', value = ''FROM'', key = None,
              whitespaceBefore = None\<rparr>"
proof -
  have d: "map_option value
      (Some \<lparr>type = OPERATOR, text = ''.'', value = ''.'', key = None, whitespaceBefore = None\<rparr>)
      = Some ''.''" by simp
  have g: "getNextToken exampleTokenizer ''from''
      (Some \<lparr>type = OPERATOR, text = ''.'', value = ''.'', key = None, whitespaceBefore = None\<rparr>)
     = Some \<lparr>type = IDENT, text = ''from'', value = ''from'', key = None, whitespaceBefore = None\<rparr>"
    by code_simp
  have h: "getNextToken exampleTokenizer ''from'' None
     = Some \<lparr>type = RESERVED_COMMAND, text = ''from'', value = ''FROM'', key = None,
              whitespaceBefore = None\<rparr>"
    by code_simp
  from C3_dot_guard[of "Some \<lparr>type = OPERATOR, text = ''.'', value = ''.'', key = None,
      whitespaceBefore = None\<rparr>" exampleTokenizer "''from''"] d g h
  show ?thesis by blast
qed

text \<open>C10: a quoted identifier is a token of type \<open>IDENT\<close>, the type of a plain
  identifier; its text and its value are both what the quoted-identifier pattern
  matched, quotes included. A plain identifier token with the same text is the same
  token, so nothing in a token tells the two apart.\<close>

theorem C10_quoted_ident:
  "(matchQuotedIdentToken tk input = Some t \<longrightarrow>
      type t = IDENT \<and> value t = text t \<and> quotedIdentRegex tk input = Some (text t) \<and>
      (\<forall>input' t'. matchToken tk IDENT input' = Some t' \<longrightarrow>
          type t' = type t \<and> (text t' = text t \<longrightarrow> t' = t))) \<and>
   (matchToken tk LINE_COMMENT input = None \<and> matchToken tk BLOCK_COMMENT input = None \<and>
    matchToken tk STRING input = None \<and> quotedIdentRegex tk input = Some m \<longrightarrow>
      getNextToken tk input previousToken =
        Some \<lparr>type = IDENT, text = m, value = m, key = None, whitespaceBefore = None\<rparr>)"
proof -
  have a: "type t = IDENT \<and> value t = text t \<and> quotedIdentRegex tk input = Some (text t) \<and>
      (\<forall>input' t'. matchToken tk IDENT input' = Some t' \<longrightarrow>
          type t' = type t \<and> (text t' = text t \<longrightarrow> t' = t))"
    if "matchQuotedIdentToken tk input = Some t"
    using that by (auto simp: matchQuotedIdentToken_def matchToken_def match_Some)
  have b: "getNextToken tk input previousToken =
        Some \<lparr>type = IDENT, text = m, value = m, key = None, whitespaceBefore = None\<rparr>"
    if "matchToken tk LINE_COMMENT input = None" "matchToken tk BLOCK_COMMENT input = None"
      "matchToken tk STRING input = None" "quotedIdentRegex tk input = Some m"
    using that by (simp add: getNextToken_def orElse_def matchQuotedIdentToken_def match_def)
  from a b show ?thesis by blast
qed

theorem C10_quoted_ident_witness:
  "getNextToken exampleTokenizer ([CHR 0x22] @ ''a b'' @ [CHR 0x22] @ '' c'') None =
     Some \<lparr>type = IDENT, text = [CHR 0x22] @ ''a b'' @ [CHR 0x22],
            value = [CHR 0x22] @ ''a b'' @ [CHR 0x22], key = None, whitespaceBefore = None\<rparr> \<and>
   matchToken exampleTokenizer IDENT ''ab c'' =
     Some \<lparr>type = IDENT, text = ''ab'', value = ''ab'', key = None, whitespaceBefore = None\<rparr>"
proof -
  have a: "matchToken exampleTokenizer LINE_COMMENT ([CHR 0x22] @ ''a b'' @ [CHR 0x22] @ '' c'') = None"
    by code_simp
  have b: "matchToken exampleTokenizer BLOCK_COMMENT ([CHR 0x22] @ ''a b'' @ [CHR 0x22] @ '' c'') = None"
    by code_simp
  have c: "matchToken exampleTokenizer STRING ([CHR 0x22] @ ''a b'' @ [CHR 0x22] @ '' c'') = None"
    by code_simp
  have d: "quotedIdentRegex exampleTokenizer ([CHR 0x22] @ ''a b'' @ [CHR 0x22] @ '' c'')
      = Some ([CHR 0x22] @ ''a b'' @ [CHR 0x22])"
    by code_simp
  have e: "matchToken exampleTokenizer IDENT ''ab c'' =
     Some \<lparr>type = IDENT, text = ''ab'', value = ''ab'', key = None, whitespaceBefore = None\<rparr>"
    by code_simp
  from C10_quoted_ident[of exampleTokenizer "[CHR 0x22] @ ''a b'' @ [CHR 0x22] @ '' c''" _
      "[CHR 0x22] @ ''a b'' @ [CHR 0x22]" None] a b c d e
  show ?thesis by blast
qed

section \<open>The canonical form of a reserved word\<close>

lemma upperChar_cases:
  "upperChar c = c \<or> (c \<in> set ''abcdefghijklmnopqrstuvwxyz'' \<and> upperChar c \<in> set ''ABCDEFGHIJKLMNOPQRSTUVWXYZ'')"
proof (cases "map_of (zip ''abcdefghijklmnopqrstuvwxyz'' ''ABCDEFGHIJKLMNOPQRSTUVWXYZ'') c")
  case None
  then have "upperChar c = c" by (simp only: upperChar_def option.case)
  then show ?thesis by (rule disjI1)
next
  case (Some u)
  then have "(c, u) \<in> set (zip ''abcdefghijklmnopqrstuvwxyz'' ''ABCDEFGHIJKLMNOPQRSTUVWXYZ'')"
    by (rule map_of_SomeD)
  then have "c \<in> set ''abcdefghijklmnopqrstuvwxyz''" "u \<in> set ''ABCDEFGHIJKLMNOPQRSTUVWXYZ''"
    by (rule set_zip_leftD, rule set_zip_rightD)
  moreover from Some have "upperChar c = u" by (simp only: upperChar_def option.case)
  ultimately show ?thesis by blast
qed

lemma letters_disjoint:
  "set ''ABCDEFGHIJKLMNOPQRSTUVWXYZ'' \<inter> set ''abcdefghijklmnopqrstuvwxyz'' = {}"
  by code_simp

lemma letters_not_space:
  "set (''ABCDEFGHIJKLMNOPQRSTUVWXYZ'' @ ''abcdefghijklmnopqrstuvwxyz'')
     \<inter> set [CHR 0x09, CHR 0x0A, CHR 0x0B, CHR 0x0C, CHR 0x0D, CHR 0x20] = {}"
  by code_simp

lemma upperChar_upper:
  assumes "c \<in> set ''ABCDEFGHIJKLMNOPQRSTUVWXYZ''"
  shows "upperChar c = c"
proof -
  from assms letters_disjoint have "c \<notin> set ''abcdefghijklmnopqrstuvwxyz''" by blast
  then have "map_of (zip ''abcdefghijklmnopqrstuvwxyz'' ''ABCDEFGHIJKLMNOPQRSTUVWXYZ'') c = None"
    by (subst map_of_zip_is_None) simp_all
  then show ?thesis by (simp only: upperChar_def option.case)
qed

lemma upperChar_idem: "upperChar (upperChar c) = upperChar c"
  using upperChar_cases[of c] upperChar_upper[of "upperChar c"] by metis

lemma isSpace_upperChar: "isSpace (upperChar c) = isSpace c"
proof -
  have "\<not> isSpace x" if "x \<in> set ''abcdefghijklmnopqrstuvwxyz''" for x
    using that letters_not_space unfolding isSpace_def set_append by blast
  moreover have "\<not> isSpace x" if "x \<in> set ''ABCDEFGHIJKLMNOPQRSTUVWXYZ''" for x
    using that letters_not_space unfolding isSpace_def set_append by blast
  ultimately show ?thesis using upperChar_cases[of c] by metis
qed

lemma upperChar_space: "upperChar (CHR 0x20) = CHR 0x20"
  by code_simp

lemma toUpperCase_idem: "toUpperCase (toUpperCase s) = toUpperCase s"
  by (simp add: toUpperCase_def upperChar_idem)

lemma dropWhile_map_upper:
  "dropWhile isSpace (map upperChar s) = map upperChar (dropWhile isSpace s)"
  by (induction s) (simp_all add: isSpace_upperChar)

lemma equalizeWhitespace_upper:
  "equalizeWhitespace (map upperChar s) = map upperChar (equalizeWhitespace s)"
  by (induction s rule: equalizeWhitespace.induct)
     (simp_all add: isSpace_upperChar dropWhile_map_upper upperChar_space)

lemma equalizeWhitespace_head:
  "s = [] \<or> \<not> isSpace (hd s) \<Longrightarrow>
     equalizeWhitespace s = [] \<or> \<not> isSpace (hd (equalizeWhitespace s))"
  by (cases s) auto

lemma dropWhile_head: "s = [] \<or> \<not> isSpace (hd s) \<Longrightarrow> dropWhile isSpace s = s"
  by (cases s) auto

lemma dropWhile_isSpace_head:
  "dropWhile isSpace s = [] \<or> \<not> isSpace (hd (dropWhile isSpace s))"
  using hd_dropWhile[of isSpace s] by blast

lemma equalizeWhitespace_idem:
  "equalizeWhitespace (equalizeWhitespace s) = equalizeWhitespace s"
proof (induction s rule: equalizeWhitespace.induct)
  case 1
  show ?case by simp
next
  case (2 c cs)
  show ?case
  proof (cases "isSpace c")
    case True
    have sp: "isSpace (CHR 0x20)" by (simp add: isSpace_def)
    let ?r = "equalizeWhitespace (dropWhile isSpace cs)"
    have "dropWhile isSpace ?r = ?r"
      by (rule dropWhile_head, rule equalizeWhitespace_head, rule dropWhile_isSpace_head)
    with True sp 2 show ?thesis by simp
  next
    case False
    with 2 show ?thesis by simp
  qed
qed

lemma toCanonicalKeyword_idem:
  "toCanonicalKeyword (toCanonicalKeyword s) = toCanonicalKeyword s"
  by (simp add: toCanonicalKeyword_def toUpperCase_def equalizeWhitespace_upper
      equalizeWhitespace_idem upperChar_idem o_def)

text \<open>What the canonical form looks like: every whitespace character left in it is a
  single space, and no two of them are neighbours.\<close>

lemma equalizeWhitespace_single:
  "\<forall>i < length (equalizeWhitespace s). isSpace (equalizeWhitespace s ! i) \<longrightarrow>
      equalizeWhitespace s ! i = CHR 0x20 \<and>
      (Suc i < length (equalizeWhitespace s) \<longrightarrow> \<not> isSpace (equalizeWhitespace s ! Suc i))"
proof (induction s rule: equalizeWhitespace.induct)
  case 1
  show ?case by simp
next
  case (2 c cs)
  show ?case
  proof (cases "isSpace c")
    case True
    let ?r = "equalizeWhitespace (dropWhile isSpace cs)"
    have h: "?r = [] \<or> \<not> isSpace (hd ?r)"
      by (rule equalizeWhitespace_head, rule dropWhile_isSpace_head)
    have e: "equalizeWhitespace (c # cs) = CHR 0x20 # ?r" using True by simp
    show ?thesis unfolding e
    proof (intro allI impI)
      fix i assume i: "i < length (CHR 0x20 # ?r)" and sp: "isSpace ((CHR 0x20 # ?r) ! i)"
      show "(CHR 0x20 # ?r) ! i = CHR 0x20 \<and>
        (Suc i < length (CHR 0x20 # ?r) \<longrightarrow> \<not> isSpace ((CHR 0x20 # ?r) ! Suc i))"
      proof (cases i)
        case 0
        with h show ?thesis by (cases ?r) auto
      next
        case (Suc j)
        with i sp 2(1)[OF True] show ?thesis by auto
      qed
    qed
  next
    case False
    have e: "equalizeWhitespace (c # cs) = c # equalizeWhitespace cs" using False by simp
    show ?thesis unfolding e
    proof (intro allI impI)
      fix i assume i: "i < length (c # equalizeWhitespace cs)"
        and sp: "isSpace ((c # equalizeWhitespace cs) ! i)"
      show "(c # equalizeWhitespace cs) ! i = CHR 0x20 \<and>
        (Suc i < length (c # equalizeWhitespace cs) \<longrightarrow>
           \<not> isSpace ((c # equalizeWhitespace cs) ! Suc i))"
      proof (cases i)
        case 0
        with sp False show ?thesis by simp
      next
        case (Suc j)
        with i sp 2(2)[OF False] show ?thesis by auto
      qed
    qed
  qed
qed

lemma matchReservedWordToken_canonical:
  assumes "matchReservedWordToken tk input previousToken = Some t"
  shows "value t = toCanonicalKeyword (text t)"
proof -
  from assms have
    "\<exists>ty. matchReservedToken tk ty input = Some t"
    unfolding matchReservedWordToken_def
    by (auto split: if_splits dest!: orElse_Some)
  then show ?thesis by (auto simp: matchReservedToken_def match_Some)
qed

text \<open>C7: the value of a reserved-word token is the canonical form of its text, the
  text being the spelling matched; the canonical form is the text in upper case with
  every run of whitespace made one space; and taking the canonical form twice is
  taking it once.\<close>

theorem C7_canonical_keyword:
  "(matchReservedToken tk ty input = Some t \<longrightarrow>
      value t = toCanonicalKeyword (text t) \<and> REGEX_MAP tk ty input = Some (text t)) \<and>
   (matchReservedWordToken tk input previousToken = Some t \<longrightarrow>
      value t = toCanonicalKeyword (text t)) \<and>
   toCanonicalKeyword s = equalizeWhitespace (map upperChar s) \<and>
   (\<forall>i < length (toCanonicalKeyword s). isSpace (toCanonicalKeyword s ! i) \<longrightarrow>
      toCanonicalKeyword s ! i = CHR 0x20 \<and>
      (Suc i < length (toCanonicalKeyword s) \<longrightarrow> \<not> isSpace (toCanonicalKeyword s ! Suc i))) \<and>
   toCanonicalKeyword (toCanonicalKeyword s) = toCanonicalKeyword s"
proof -
  have a: "matchReservedToken tk ty input = Some t \<longrightarrow>
      value t = toCanonicalKeyword (text t) \<and> REGEX_MAP tk ty input = Some (text t)"
    by (auto simp: matchReservedToken_def match_Some)
  have b: "matchReservedWordToken tk input previousToken = Some t \<longrightarrow>
      value t = toCanonicalKeyword (text t)"
    using matchReservedWordToken_canonical by blast
  have c: "toCanonicalKeyword s = equalizeWhitespace (map upperChar s)"
    by (simp add: toCanonicalKeyword_def toUpperCase_def)
  have d: "\<forall>i < length (toCanonicalKeyword s). isSpace (toCanonicalKeyword s ! i) \<longrightarrow>
      toCanonicalKeyword s ! i = CHR 0x20 \<and>
      (Suc i < length (toCanonicalKeyword s) \<longrightarrow> \<not> isSpace (toCanonicalKeyword s ! Suc i))"
    unfolding toCanonicalKeyword_def by (rule equalizeWhitespace_single)
  show ?thesis
    by (rule conjI[OF a conjI[OF b conjI[OF c conjI[OF d toCanonicalKeyword_idem]]]])
qed

theorem C7_canonical_keyword_witness:
  "getNextToken exampleTokenizer (''union '' @ [CHR 0x0A] @ ''  All x'') None =
     Some \<lparr>type = RESERVED_BINARY_COMMAND, text = ''union '' @ [CHR 0x0A] @ ''  All'',
            value = ''UNION ALL'', key = None, whitespaceBefore = None\<rparr> \<and>
   toCanonicalKeyword (''union '' @ [CHR 0x0A] @ ''  All'') = ''UNION ALL'' \<and>
   toCanonicalKeyword (toCanonicalKeyword (''union '' @ [CHR 0x0A] @ ''  All'')) = ''UNION ALL''"
proof -
  have g: "matchReservedWordToken exampleTokenizer (''union '' @ [CHR 0x0A] @ ''  All x'') None =
     Some \<lparr>type = RESERVED_BINARY_COMMAND, text = ''union '' @ [CHR 0x0A] @ ''  All'',
            value = ''UNION ALL'', key = None, whitespaceBefore = None\<rparr>"
    by code_simp
  have h: "getNextToken exampleTokenizer (''union '' @ [CHR 0x0A] @ ''  All x'') None =
     Some \<lparr>type = RESERVED_BINARY_COMMAND, text = ''union '' @ [CHR 0x0A] @ ''  All'',
            value = ''UNION ALL'', key = None, whitespaceBefore = None\<rparr>"
    by code_simp
  note t = C7_canonical_keyword[of exampleTokenizer _ "''union '' @ [CHR 0x0A] @ ''  All x''"
      "\<lparr>type = RESERVED_BINARY_COMMAND, text = ''union '' @ [CHR 0x0A] @ ''  All'',
            value = ''UNION ALL'', key = None, whitespaceBefore = None\<rparr>" None
      "''union '' @ [CHR 0x0A] @ ''  All''"]
  from t[THEN conjunct2, THEN conjunct1, rule_format, OF g]
  have c: "toCanonicalKeyword (''union '' @ [CHR 0x0A] @ ''  All'') = ''UNION ALL''"
    by simp
  from t[THEN conjunct2, THEN conjunct2, THEN conjunct2, THEN conjunct2]
  have "toCanonicalKeyword (toCanonicalKeyword (''union '' @ [CHR 0x0A] @ ''  All''))
          = toCanonicalKeyword (''union '' @ [CHR 0x0A] @ ''  All'')" .
  then have d: "toCanonicalKeyword (toCanonicalKeyword (''union '' @ [CHR 0x0A] @ ''  All''))
          = ''UNION ALL''"
    by (simp only: c)
  show ?thesis by (rule conjI[OF h conjI[OF c d]])
qed

section \<open>The number pattern and the minus sign\<close>

lemma ms_Optional_ne: "ms (Optional r) st \<noteq> []"
  by (simp add: Optional_def)

lemma concat_map_ne:
  assumes "xs \<noteq> []" and "\<And>x. x \<in> set xs \<Longrightarrow> f x \<noteq> []"
  shows "concat (map f xs) \<noteq> []"
  using assms by (cases xs) auto

lemma ms_Seq_ne:
  assumes "ms r1 st \<noteq> []" and "\<And>st1. st1 \<in> set (ms r1 st) \<Longrightarrow> ms r2 st1 \<noteq> []"
  shows "ms (Seq r1 r2) st \<noteq> []"
  using assms by (simp add: concat_map_ne)

lemma ms_Star_ne: "ms (Star r) st \<noteq> []"
  by (subst ms_Star) simp

lemma hd_in_set: "xs = x # ys \<Longrightarrow> x \<in> set xs"
  by simp

text \<open>The part of the number pattern after the sign: digits, an optional fraction, an
  optional exponent.\<close>

lemma number_tail_matches:
  assumes "isDigit d"
  shows "\<exists>st' sts. ms (Seqs [OneOrMore (Chr isDigit),
              Optional (Seq (Lit ''.'') (Star (Chr isDigit))),
              Optional (Seqs [Chr (\<lambda>c. c \<in> set ''eE''),
                              Optional (Chr (\<lambda>c. c \<in> set ''-+'')),
                              OneOrMore (Chr isDigit),
                              Optional (Seq (Lit ''.'') (OneOrMore (Chr isDigit)))])])
            \<lparr>prev = p, rest = d # s, cap = c\<rparr> = st' # sts \<and> length (rest st') \<le> length s"
proof -
  let ?tailr = "Seqs [OneOrMore (Chr isDigit),
              Optional (Seq (Lit ''.'') (Star (Chr isDigit))),
              Optional (Seqs [Chr (\<lambda>c. c \<in> set ''eE''),
                              Optional (Chr (\<lambda>c. c \<in> set ''-+'')),
                              OneOrMore (Chr isDigit),
                              Optional (Seq (Lit ''.'') (OneOrMore (Chr isDigit)))])]"
  let ?st = "\<lparr>prev = p, rest = d # s, cap = c\<rparr>"
  let ?frac = "Optional (Seq (Lit ''.'') (Star (Chr isDigit)))"
  let ?exp = "Optional (Seqs [Chr (\<lambda>c. c \<in> set ''eE''),
                              Optional (Chr (\<lambda>c. c \<in> set ''-+'')),
                              OneOrMore (Chr isDigit),
                              Optional (Seq (Lit ''.'') (OneOrMore (Chr isDigit)))])"
  have t: "?tailr = Seq (OneOrMore (Chr isDigit)) (Seq ?frac ?exp)" by simp
  have d1: "ms (OneOrMore (Chr isDigit)) ?st \<noteq> []"
    unfolding OneOrMore_def using assms by (intro ms_Seq_ne) (auto simp: ms_Star_ne)
  have fe: "ms (Seq ?frac ?exp) st1 \<noteq> []" for st1
    by (rule ms_Seq_ne[OF ms_Optional_ne ms_Optional_ne])
  have ne: "ms ?tailr ?st \<noteq> []" unfolding t by (rule ms_Seq_ne[OF d1 fe])
  then obtain st' sts where e: "ms ?tailr ?st = st' # sts" by (cases "ms ?tailr ?st") auto
  have cons: "consuming ?tailr" by (simp add: OneOrMore_def)
  from e have "st' \<in> set (ms ?tailr ?st)" by simp
  from ms_consuming[OF cons this] have "length (rest st') \<le> length s" by simp
  with e show ?thesis by blast
qed

lemma number_minus:
  assumes ws: "list_all isSpace ws" and d: "isDigit d"
  shows "\<exists>t. compile NUMBER_REGEX (CHR ''-'' # ws @ d # s) = Some t \<and>
             prefix (CHR ''-'' # ws @ [d]) t"
proof -
  let ?input = "CHR ''-'' # ws @ d # s"
  let ?st0 = "\<lparr>prev = None, rest = ?input, cap = None\<rparr>"
  let ?tailr = "Seqs [OneOrMore (Chr isDigit),
              Optional (Seq (Lit ''.'') (Star (Chr isDigit))),
              Optional (Seqs [Chr (\<lambda>c. c \<in> set ''eE''),
                              Optional (Chr (\<lambda>c. c \<in> set ''-+'')),
                              OneOrMore (Chr isDigit),
                              Optional (Seq (Lit ''.'') (OneOrMore (Chr isDigit)))])]"
  let ?sign = "Optional (Seq (Lit ''-'') (Star (Chr isSpace)))"
  let ?a1 = "Seq (Lit ''0x'') (OneOrMore (Chr isHex))"
  let ?a2 = "Seq (Lit ''0b'') (OneOrMore (Chr (\<lambda>c. c \<in> set ''01'')))"
  have nd: "\<not> isSpace d" using d by (auto simp: isDigit_def isSpace_def)
  with ws have dw: "dropWhile isSpace (ws @ d # s) = d # s"
    by (induction ws) auto
  obtain p' sts1 where
    star: "ms (Star (Chr isSpace)) \<lparr>prev = Some CHR ''-'', rest = ws @ d # s, cap = None\<rparr>
         = \<lparr>prev = p', rest = d # s, cap = None\<rparr> # sts1"
    using ms_Star_Chr_hd[of isSpace "Some CHR ''-''" "ws @ d # s" None] dw by auto
  have sign: "ms ?sign ?st0 = \<lparr>prev = p', rest = d # s, cap = None\<rparr> # sts1 @ [?st0]"
    by (simp add: Optional_def star)
  from number_tail_matches[OF d, of p' s None] obtain st' sts2 where
    tl: "ms ?tailr \<lparr>prev = p', rest = d # s, cap = None\<rparr> = st' # sts2"
    and len: "length (rest st') \<le> length s" by blast
  have a3: "ms (Seq ?sign ?tailr) ?st0 = st' # sts2 @ concat (map (ms ?tailr) (sts1 @ [?st0]))"
    by (simp only: ms.simps(3) sign list.map concat.simps tl append_Cons)
  have a12: "ms ?a1 ?st0 = []" "ms ?a2 ?st0 = []" by simp_all
  have s3: "Seqs [?sign, OneOrMore (Chr isDigit),
              Optional (Seq (Lit ''.'') (Star (Chr isDigit))),
              Optional (Seqs [Chr (\<lambda>c. c \<in> set ''eE''),
                              Optional (Chr (\<lambda>c. c \<in> set ''-+'')),
                              OneOrMore (Chr isDigit),
                              Optional (Seq (Lit ''.'') (OneOrMore (Chr isDigit)))])]
            = Seq ?sign ?tailr" by simp
  have body: "ms (Alts [?a1, ?a2, Seq ?sign ?tailr]) ?st0
                = st' # sts2 @ concat (map (ms ?tailr) (sts1 @ [?st0]))"
    by (simp only: Alts.simps ms.simps(4) a12 a3 append_Nil)
  have nr: "NUMBER_REGEX = Seq Bol (Grp (Alts [?a1, ?a2, Seq ?sign ?tailr]))"
    unfolding NUMBER_REGEX_def s3 ..
  let ?t = "take (length ?input - length (rest st')) ?input"
  have "compile NUMBER_REGEX ?input = Some ?t"
    unfolding nr compile_def search_anchored
    by (simp only: ms.simps(11) body list.map list.case option.case mstate.simps) simp
  moreover have "prefix (CHR ''-'' # ws @ [d]) ?t"
  proof -
    have i: "?input = (CHR ''-'' # ws @ [d]) @ s" by simp
    have l: "length (CHR ''-'' # ws @ [d]) \<le> length ?input - length (rest st')"
      using len by simp
    have "take (length ?input - length (rest st')) ((CHR ''-'' # ws @ [d]) @ s)
            = (CHR ''-'' # ws @ [d]) @
              take (length ?input - length (rest st') - length (CHR ''-'' # ws @ [d])) s"
      using l by (simp only: take_append take_all[OF l])
    then show ?thesis unfolding i[symmetric] by (simp only: prefix_def) blast
  qed
  ultimately show ?thesis by blast
qed


lemma ms_Seq_Nil: "ms r1 st = [] \<Longrightarrow> ms (Seq r1 r2) st = []"
  by simp

lemma ms_Star_Chr_results:
  "st' \<in> set (ms (Star (Chr P)) st) \<Longrightarrow> \<exists>w. rest st = w @ rest st' \<and> list_all P w"
proof (induction "rest st" arbitrary: st)
  case Nil
  from Nil(2) Nil(1)[symmetric] have "st' = st"
    by (subst (asm) ms_Star) simp
  then show ?case by simp
next
  case (Cons x xs)
  show ?case
  proof (cases "P x")
    case False
    with Cons(3) Cons(2)[symmetric] have "st' = st"
      by (subst (asm) ms_Star) simp
    then show ?thesis by simp
  next
    case True
    let ?st1 = "st\<lparr>prev := Some x, rest := xs\<rparr>"
    from Cons(3) Cons(2)[symmetric] True have "st' \<in> set (ms (Star (Chr P)) ?st1) \<or> st' = st"
      by (subst (asm) ms_Star) auto
    then show ?thesis
    proof
      assume "st' = st"
      then show ?thesis by simp
    next
      assume "st' \<in> set (ms (Star (Chr P)) ?st1)"
      from Cons(1)[of ?st1, OF _ this] obtain w where "xs = w @ rest st'" "list_all P w"
        by auto
      with True Cons(2)[symmetric] show ?thesis
        by (intro exI[of _ "x # w"]) simp
    qed
  qed
qed

lemma number_minus_only:
  assumes "compile NUMBER_REGEX (CHR ''-'' # r) = Some t"
  shows "\<exists>ws d s. r = ws @ d # s \<and> list_all isSpace ws \<and> isDigit d"
proof -
  let ?input = "CHR ''-'' # r"
  let ?st0 = "\<lparr>prev = None, rest = ?input, cap = None\<rparr>"
  let ?stm = "\<lparr>prev = Some CHR ''-'', rest = r, cap = None\<rparr>"
  let ?tailr = "Seqs [OneOrMore (Chr isDigit),
              Optional (Seq (Lit ''.'') (Star (Chr isDigit))),
              Optional (Seqs [Chr (\<lambda>c. c \<in> set ''eE''),
                              Optional (Chr (\<lambda>c. c \<in> set ''-+'')),
                              OneOrMore (Chr isDigit),
                              Optional (Seq (Lit ''.'') (OneOrMore (Chr isDigit)))])]"
  let ?sign = "Optional (Seq (Lit ''-'') (Star (Chr isSpace)))"
  let ?a1 = "Seq (Lit ''0x'') (OneOrMore (Chr isHex))"
  let ?a2 = "Seq (Lit ''0b'') (OneOrMore (Chr (\<lambda>c. c \<in> set ''01'')))"
  have s3: "Seqs [?sign, OneOrMore (Chr isDigit),
              Optional (Seq (Lit ''.'') (Star (Chr isDigit))),
              Optional (Seqs [Chr (\<lambda>c. c \<in> set ''eE''),
                              Optional (Chr (\<lambda>c. c \<in> set ''-+'')),
                              OneOrMore (Chr isDigit),
                              Optional (Seq (Lit ''.'') (OneOrMore (Chr isDigit)))])]
            = Seq ?sign ?tailr" by simp
  have nr: "NUMBER_REGEX = Seq Bol (Grp (Alts [?a1, ?a2, Seq ?sign ?tailr]))"
    unfolding NUMBER_REGEX_def s3 ..
  have a12: "ms ?a1 ?st0 = []" "ms ?a2 ?st0 = []" by simp_all
  from assms have "ms (Grp (Alts [?a1, ?a2, Seq ?sign ?tailr])) ?st0 \<noteq> []"
    unfolding nr compile_def search_anchored
    by (cases "ms (Grp (Alts [?a1, ?a2, Seq ?sign ?tailr])) ?st0")
       (simp_all only: list.case option.case option.distinct list.distinct not_False_eq_True)
  then have "ms (Alts [?a1, ?a2, Seq ?sign ?tailr]) ?st0 \<noteq> []"
    by (simp only: ms.simps(11) map_is_Nil_conv simp_thms)
  then have "ms (Seq ?sign ?tailr) ?st0 \<noteq> []"
    by (simp only: Alts.simps ms.simps(4) a12 append_Nil simp_thms)
  then obtain st1 where st1: "st1 \<in> set (ms ?sign ?st0)" and tl: "ms ?tailr st1 \<noteq> []"
    by (auto simp only: ms.simps(3) concat_eq_Nil_conv set_map)
  have dig: "\<exists>d s. rest st = d # s \<and> isDigit d" if "ms ?tailr st \<noteq> []" for st
  proof -
    have t: "?tailr = Seq (Seq (Chr isDigit) (Star (Chr isDigit)))
        (Seq (Optional (Seq (Lit ''.'') (Star (Chr isDigit))))
             (Optional (Seqs [Chr (\<lambda>c. c \<in> set ''eE''),
                              Optional (Chr (\<lambda>c. c \<in> set ''-+'')),
                              OneOrMore (Chr isDigit),
                              Optional (Seq (Lit ''.'') (OneOrMore (Chr isDigit)))])))"
      by (simp add: OneOrMore_def)
    have "ms (Chr isDigit) st \<noteq> []"
    proof
      assume "ms (Chr isDigit) st = []"
      then have "ms (Seq (Chr isDigit) (Star (Chr isDigit))) st = []" by (rule ms_Seq_Nil)
      then have "ms ?tailr st = []" unfolding t by (rule ms_Seq_Nil)
      with that show False by contradiction
    qed
    then show ?thesis by (cases "rest st") (auto split: if_splits)
  qed
  have sign: "ms ?sign ?st0 = ms (Star (Chr isSpace)) ?stm @ [?st0]"
    by (simp add: Optional_def)
  from st1 consider "st1 = ?st0" | "st1 \<in> set (ms (Star (Chr isSpace)) ?stm)"
    unfolding sign by auto
  then show ?thesis
  proof cases
    case 1
    from dig[OF tl] 1 have "isDigit (CHR ''-'')" by simp
    then have False by (simp add: isDigit_def)
    then show ?thesis ..
  next
    case 2
    from ms_Star_Chr_results[OF 2] obtain w where w: "r = w @ rest st1" "list_all isSpace w"
      by auto
    from dig[OF tl] obtain d s where "rest st1 = d # s" "isDigit d" by blast
    with w show ?thesis by blast
  qed
qed


lemma REGEX_MAP_NUMBER: "REGEX_MAP (constructor rf cfg) NUMBER = compile NUMBER_REGEX"
  by (simp add: constructor_def)

text \<open>C8, as the claim has it, fails: the pattern reads \<open>(-\s*)?[0-9]+\<close>, so whitespace may
  stand between the minus sign and the digits.\<close>

theorem C8_number_minus_counterexample:
  "compile NUMBER_REGEX ''- 5'' = Some ''- 5'' \<and>
   tokenize exampleTokenizer ''- 5'' =
     Some (Inr [\<lparr>type = NUMBER, text = ''- 5'', value = ''- 5'', key = None,
                  whitespaceBefore = Some []\<rparr>])"
  by code_simp

text \<open>C8 (amended): the number pattern accepts a leading \<open>-\<close> exactly when the sign is
  followed, after any run of whitespace (possibly none), by a digit, and the sign, the
  whitespace and the digit are then part of the number. The number category is tried
  before the operator category: where the number pattern matches, the next token is
  the first match of the categories down to the number, so the operator rule is not
  asked and the token is not an operator.\<close>

theorem C8_number_minus:
  "(list_all isSpace ws \<and> isDigit d \<longrightarrow>
      (\<exists>t. compile NUMBER_REGEX (CHR ''-'' # ws @ d # s) = Some t \<and>
           prefix (CHR ''-'' # ws @ [d]) t)) \<and>
   (compile NUMBER_REGEX (CHR ''-'' # r) = Some t' \<longrightarrow>
      (\<exists>ws d s. r = ws @ d # s \<and> list_all isSpace ws \<and> isDigit d)) \<and>
   REGEX_MAP (constructor rf cfg) NUMBER = compile NUMBER_REGEX \<and>
   (compile NUMBER_REGEX input = Some m \<longrightarrow>
      getNextToken (constructor rf cfg) input previousToken =
        firstMatch
          [matchToken (constructor rf cfg) LINE_COMMENT input,
           matchToken (constructor rf cfg) BLOCK_COMMENT input,
           matchToken (constructor rf cfg) STRING input,
           matchQuotedIdentToken (constructor rf cfg) input,
           matchToken (constructor rf cfg) BLOCK_START input,
           matchToken (constructor rf cfg) BLOCK_END input,
           matchPlaceholderToken (constructor rf cfg) input,
           Some \<lparr>type = NUMBER, text = m, value = m, key = None, whitespaceBefore = None\<rparr>] \<and>
      (\<exists>t. getNextToken (constructor rf cfg) input previousToken = Some t \<and>
           type t \<noteq> OPERATOR))"
proof -
  let ?tk = "constructor rf cfg"
  have a: "list_all isSpace ws \<and> isDigit d \<longrightarrow>
      (\<exists>t. compile NUMBER_REGEX (CHR ''-'' # ws @ d # s) = Some t \<and>
           prefix (CHR ''-'' # ws @ [d]) t)"
    using number_minus by blast
  have b: "compile NUMBER_REGEX (CHR ''-'' # r) = Some t' \<longrightarrow>
      (\<exists>ws d s. r = ws @ d # s \<and> list_all isSpace ws \<and> isDigit d)"
    using number_minus_only by blast
  have c: "getNextToken ?tk input previousToken =
        firstMatch
          [matchToken ?tk LINE_COMMENT input, matchToken ?tk BLOCK_COMMENT input,
           matchToken ?tk STRING input, matchQuotedIdentToken ?tk input,
           matchToken ?tk BLOCK_START input, matchToken ?tk BLOCK_END input,
           matchPlaceholderToken ?tk input,
           Some \<lparr>type = NUMBER, text = m, value = m, key = None, whitespaceBefore = None\<rparr>] \<and>
      (\<exists>t. getNextToken ?tk input previousToken = Some t \<and> type t \<noteq> OPERATOR)"
    if m: "compile NUMBER_REGEX input = Some m"
  proof -
    let ?n = "\<lparr>type = NUMBER, text = m, value = m, key = None, whitespaceBefore = None\<rparr>"
    from m have n: "matchToken ?tk NUMBER input = Some ?n"
      by (simp add: matchToken_def match_def REGEX_MAP_NUMBER)
    have g: "getNextToken ?tk input previousToken =
        firstMatch
          [matchToken ?tk LINE_COMMENT input, matchToken ?tk BLOCK_COMMENT input,
           matchToken ?tk STRING input, matchQuotedIdentToken ?tk input,
           matchToken ?tk BLOCK_START input, matchToken ?tk BLOCK_END input,
           matchPlaceholderToken ?tk input, Some ?n]"
      unfolding getNextToken_firstMatch n
      by (simp only: firstMatch_Cons orElse_def option.case)
    then obtain t where t: "getNextToken ?tk input previousToken = Some t"
      by (simp add: firstMatch_Cons orElse_def split: option.splits)
    from t[unfolded g] have "\<exists>x \<in> set [matchToken ?tk LINE_COMMENT input,
           matchToken ?tk BLOCK_COMMENT input,
           matchToken ?tk STRING input, matchQuotedIdentToken ?tk input,
           matchToken ?tk BLOCK_START input, matchToken ?tk BLOCK_END input,
           matchPlaceholderToken ?tk input, Some ?n]. x = Some t"
      by (rule firstMatch_type)
    moreover have "type t = ty" if "Some t = matchToken ?tk ty input" for ty
      using that[symmetric] by (auto simp: matchToken_def match_Some)
    moreover have "type t = IDENT" if "Some t = matchQuotedIdentToken ?tk input"
      using that[symmetric] by (auto simp: matchQuotedIdentToken_def match_Some)
    moreover have "type t = PLACEHOLDER" if "Some t = matchPlaceholderToken ?tk input"
      using that[symmetric] by (auto simp: matchPlaceholderToken_def dest: matchPlaceholderLoop_type)
    ultimately have "type t \<in> {LINE_COMMENT, BLOCK_COMMENT, STRING, IDENT, BLOCK_START,
        BLOCK_END, PLACEHOLDER, NUMBER}"
      by auto
    then have "type t \<noteq> OPERATOR" by auto
    with g t show ?thesis by blast
  qed
  from a b c REGEX_MAP_NUMBER[of rf cfg] show ?thesis by blast
qed

theorem C8_number_minus_witness:
  "(\<exists>t. compile NUMBER_REGEX ''-  5 + 1'' = Some t \<and> prefix ''-  5'' t) \<and>
   compile NUMBER_REGEX ''-  5 + 1'' = Some ''-  5'' \<and>
   (\<exists>t. getNextToken (constructor specFactory exampleCfg) ''-  5 + 1'' None = Some t \<and>
        type t \<noteq> OPERATOR) \<and>
   getNextToken (constructor specFactory exampleCfg) ''-  5 + 1'' None =
     Some \<lparr>type = NUMBER, text = ''-  5'', value = ''-  5'', key = None, whitespaceBefore = None\<rparr>"
proof -
  have sp: "list_all isSpace ''  '' \<and> isDigit (CHR ''5'')" by code_simp
  have n: "compile NUMBER_REGEX ''-  5 + 1'' = Some ''-  5''" by code_simp
  have g: "getNextToken (constructor specFactory exampleCfg) ''-  5 + 1'' None =
     Some \<lparr>type = NUMBER, text = ''-  5'', value = ''-  5'', key = None, whitespaceBefore = None\<rparr>"
    by code_simp
  note t = C8_number_minus[of "''  ''" "CHR ''5''" "'' + 1''" _ _ specFactory exampleCfg
      "''-  5 + 1''" "''-  5''" None]
  from t[THEN conjunct1, rule_format, OF sp]
  have w1: "\<exists>t. compile NUMBER_REGEX ''-  5 + 1'' = Some t \<and> prefix ''-  5'' t" by simp
  from t[THEN conjunct2, THEN conjunct2, THEN conjunct2, rule_format, OF n, THEN conjunct2]
  have w2: "\<exists>t. getNextToken (constructor specFactory exampleCfg) ''-  5 + 1'' None = Some t \<and>
        type t \<noteq> OPERATOR" .
  show ?thesis by (rule conjI[OF w1 conjI[OF n conjI[OF w2 g]]])
qed

section \<open>Placeholders\<close>

lemma excludePatternsWithoutRegexes_filter:
  "excludePatternsWithoutRegexes ps =
     map (\<lambda>p. \<lparr>regex = the (regex p), parseKey = parseKey p\<rparr>)
         (filter (\<lambda>p. regex p \<noteq> None) ps)"
  by (induction ps)
     (auto simp: excludePatternsWithoutRegexes_def List.map_filter_simps split: option.splits)

lemma matchPlaceholderLoop_firstMatch:
  "matchPlaceholderLoop ps input =
     firstMatch (map (\<lambda>p. map_option
        (\<lambda>m. \<lparr>type = PLACEHOLDER, text = m, value = m, key = Some (parseKey p m),
                whitespaceBefore = None\<rparr>) (regex p input)) ps)"
  by (induction ps) (auto simp: match_def split: option.splits)

lemma compile_POSITIONAL:
  "compile POSITIONAL_REGEX input = Some m \<Longrightarrow> m = ''?''"
  unfolding compile_def POSITIONAL_REGEX_def search_anchored
  by (cases input) (auto split: if_splits)

lemma replaceLiteral_plain:
  "CHR 0x5C \<notin> set xs \<Longrightarrow> replaceLiteral (CHR 0x5C) [q] [q] xs = xs"
  by (induction xs) auto

lemma replaceLiteral_escaped:
  "CHR 0x5C \<notin> set xs \<Longrightarrow>
     replaceLiteral (CHR 0x5C) [q] [q] (xs @ CHR 0x5C # q # ys)
       = xs @ q # replaceLiteral (CHR 0x5C) [q] [q] ys"
  by (induction xs) auto

lemma replaceLiteral_other:
  "CHR 0x5C \<notin> set xs \<Longrightarrow> c \<noteq> q \<Longrightarrow>
     replaceLiteral (CHR 0x5C) [q] [q] (xs @ CHR 0x5C # c # ys)
       = xs @ CHR 0x5C # replaceLiteral (CHR 0x5C) [q] [q] (c # ys)"
  by (induction xs) auto

lemma quoted_key:
  "getEscapedPlaceholderKey (slice2m1 (p # q # body @ [q'])) (sliceLast (p # q # body @ [q']))
     = replaceLiteral (CHR 0x5C) [q'] [q'] body"
  by (simp add: getEscapedPlaceholderKey_def slice2m1_def sliceLast_def)

lemma placeholderPatterns_constructor:
  "placeholderPatterns (constructor rf cfg) =
     excludePatternsWithoutRegexes
        [\<lparr>regex = createPlaceholderRegex rf (orDefault (namedPlaceholderTypes cfg) [])
                    (OneOrMore (Chr (\<lambda>c. isWord c \<or> c = CHR ''$''))),
          parseKey = slice1\<rparr>,
         \<lparr>regex = createPlaceholderRegex rf (orDefault (quotedPlaceholderTypes cfg) [])
                    (createQuotePattern rf (identifierTypes cfg)),
          parseKey = (\<lambda>v. getEscapedPlaceholderKey (slice2m1 v) (sliceLast v))\<rparr>,
         \<lparr>regex = createPlaceholderRegex rf (orDefault (numberedPlaceholderTypes cfg) [])
                    (OneOrMore (Chr isDigit)),
          parseKey = slice1\<rparr>,
         \<lparr>regex = (if orDefault (positionalPlaceholders cfg) False
                   then Some (compile POSITIONAL_REGEX) else None),
          parseKey = slice1\<rparr>]"
  by (simp add: constructor_def)

lemma unconfigured_spec:
  assumes "namedPlaceholderTypes cfg = None" "quotedPlaceholderTypes cfg = None"
    "numberedPlaceholderTypes cfg = None" "positionalPlaceholders cfg = None"
  shows "placeholderPatterns (constructor specFactory cfg) = []"
  using assms
  by (simp add: placeholderPatterns_constructor excludePatternsWithoutRegexes_filter
      specFactory_def specPlaceholderRegex_def orDefault_def)


text \<open>C6: the placeholder patterns are the named, the quoted, the numbered and the
  positional one, in this order, without those for which there is no pattern (the
  factory returned none, or positional placeholders are not switched on; the
  modelled factory returns none for a style without prefixes). The first pattern of
  the list that matches gives the token, and the token's key is the pattern's
  \<open>parseKey\<close> of the text: the text without its first character for the named, the
  numbered and the positional style, which for the positional \<open>?\<close> is the empty
  string; for the quoted style the text without its first two characters and its
  last, with every backslash followed by the closing quote character replaced by
  that character.\<close>

theorem C6_placeholders:
  "placeholderPatterns (constructor rf cfg) =
     map (\<lambda>p. \<lparr>regex = the (regex p), parseKey = parseKey p\<rparr>)
       (filter (\<lambda>p. regex p \<noteq> None)
        [\<lparr>regex = createPlaceholderRegex rf (orDefault (namedPlaceholderTypes cfg) [])
                    (OneOrMore (Chr (\<lambda>c. isWord c \<or> c = CHR ''$''))),
          parseKey = slice1\<rparr>,
         \<lparr>regex = createPlaceholderRegex rf (orDefault (quotedPlaceholderTypes cfg) [])
                    (createQuotePattern rf (identifierTypes cfg)),
          parseKey = (\<lambda>v. getEscapedPlaceholderKey (slice2m1 v) (sliceLast v))\<rparr>,
         \<lparr>regex = createPlaceholderRegex rf (orDefault (numberedPlaceholderTypes cfg) [])
                    (OneOrMore (Chr isDigit)),
          parseKey = slice1\<rparr>,
         \<lparr>regex = (if orDefault (positionalPlaceholders cfg) False
                   then Some (compile POSITIONAL_REGEX) else None),
          parseKey = slice1\<rparr>]) \<and>
   (namedPlaceholderTypes cfg = None \<and> quotedPlaceholderTypes cfg = None \<and>
    numberedPlaceholderTypes cfg = None \<and> positionalPlaceholders cfg = None \<longrightarrow>
      placeholderPatterns (constructor specFactory cfg) = []) \<and>
   (createPlaceholderRegex specFactory types pat = None \<longleftrightarrow> types = []) \<and>
   matchPlaceholderToken tk input =
     firstMatch (map (\<lambda>p. map_option
        (\<lambda>m. \<lparr>type = PLACEHOLDER, text = m, value = m, key = Some (parseKey p m),
                whitespaceBefore = None\<rparr>) (regex p input)) (placeholderPatterns tk)) \<and>
   slice1 (c # cs) = cs \<and>
   (compile POSITIONAL_REGEX input = Some m \<longrightarrow> m = ''?'' \<and> slice1 m = []) \<and>
   getEscapedPlaceholderKey (slice2m1 (p # q # body @ [q'])) (sliceLast (p # q # body @ [q']))
     = replaceLiteral (CHR 0x5C) [q'] [q'] body \<and>
   (CHR 0x5C \<notin> set xs \<longrightarrow>
      replaceLiteral (CHR 0x5C) [q'] [q'] xs = xs \<and>
      replaceLiteral (CHR 0x5C) [q'] [q'] (xs @ CHR 0x5C # q' # ys)
        = xs @ q' # replaceLiteral (CHR 0x5C) [q'] [q'] ys \<and>
      (x \<noteq> q' \<longrightarrow>
         replaceLiteral (CHR 0x5C) [q'] [q'] (xs @ CHR 0x5C # x # ys)
           = xs @ CHR 0x5C # replaceLiteral (CHR 0x5C) [q'] [q'] (x # ys))) \<and>
   tokenize exampleTokenizer '':42'' =
     Some (Inr [\<lparr>type = PLACEHOLDER, text = '':42'', value = '':42'', key = Some ''42'',
                  whitespaceBefore = Some []\<rparr>]) \<and>
   tokenize exampleTokenizer ''@foo'' =
     Some (Inr [\<lparr>type = PLACEHOLDER, text = ''@foo'', value = ''@foo'', key = Some ''foo'',
                  whitespaceBefore = Some []\<rparr>]) \<and>
   tokenize exampleTokenizer ''?'' =
     Some (Inr [\<lparr>type = PLACEHOLDER, text = ''?'', value = ''?'', key = Some [],
                  whitespaceBefore = Some []\<rparr>]) \<and>
   tokenize exampleTokenizer
       [CHR ''@'', CHR 0x22, CHR ''a'', CHR 0x5C, CHR 0x22, CHR ''b'', CHR 0x22] =
     Some (Inr [\<lparr>type = PLACEHOLDER,
                  text = [CHR ''@'', CHR 0x22, CHR ''a'', CHR 0x5C, CHR 0x22, CHR ''b'', CHR 0x22],
                  value = [CHR ''@'', CHR 0x22, CHR ''a'', CHR 0x5C, CHR 0x22, CHR ''b'', CHR 0x22],
                  key = Some [CHR ''a'', CHR 0x22, CHR ''b''],
                  whitespaceBefore = Some []\<rparr>])"
proof -
  have a: "placeholderPatterns (constructor rf cfg) =
     map (\<lambda>p. \<lparr>regex = the (regex p), parseKey = parseKey p\<rparr>)
       (filter (\<lambda>p. regex p \<noteq> None)
        [\<lparr>regex = createPlaceholderRegex rf (orDefault (namedPlaceholderTypes cfg) [])
                    (OneOrMore (Chr (\<lambda>c. isWord c \<or> c = CHR ''$''))),
          parseKey = slice1\<rparr>,
         \<lparr>regex = createPlaceholderRegex rf (orDefault (quotedPlaceholderTypes cfg) [])
                    (createQuotePattern rf (identifierTypes cfg)),
          parseKey = (\<lambda>v. getEscapedPlaceholderKey (slice2m1 v) (sliceLast v))\<rparr>,
         \<lparr>regex = createPlaceholderRegex rf (orDefault (numberedPlaceholderTypes cfg) [])
                    (OneOrMore (Chr isDigit)),
          parseKey = slice1\<rparr>,
         \<lparr>regex = (if orDefault (positionalPlaceholders cfg) False
                   then Some (compile POSITIONAL_REGEX) else None),
          parseKey = slice1\<rparr>])"
    by (simp only: placeholderPatterns_constructor excludePatternsWithoutRegexes_filter)
  have b: "namedPlaceholderTypes cfg = None \<and> quotedPlaceholderTypes cfg = None \<and>
    numberedPlaceholderTypes cfg = None \<and> positionalPlaceholders cfg = None \<longrightarrow>
      placeholderPatterns (constructor specFactory cfg) = []"
    using unconfigured_spec by blast
  have b': "createPlaceholderRegex specFactory types pat = None \<longleftrightarrow> types = []"
    by (simp add: specFactory_def specPlaceholderRegex_def)
  have c: "matchPlaceholderToken tk input =
     firstMatch (map (\<lambda>p. map_option
        (\<lambda>m. \<lparr>type = PLACEHOLDER, text = m, value = m, key = Some (parseKey p m),
                whitespaceBefore = None\<rparr>) (regex p input)) (placeholderPatterns tk))"
    unfolding matchPlaceholderToken_def by (rule matchPlaceholderLoop_firstMatch)
  have d: "slice1 (c # cs) = cs" by (simp add: slice1_def)
  have e: "compile POSITIONAL_REGEX input = Some m \<longrightarrow> m = ''?'' \<and> slice1 m = []"
    by (auto dest: compile_POSITIONAL simp: slice1_def)
  have f: "CHR 0x5C \<notin> set xs \<longrightarrow>
      replaceLiteral (CHR 0x5C) [q'] [q'] xs = xs \<and>
      replaceLiteral (CHR 0x5C) [q'] [q'] (xs @ CHR 0x5C # q' # ys)
        = xs @ q' # replaceLiteral (CHR 0x5C) [q'] [q'] ys \<and>
      (x \<noteq> q' \<longrightarrow>
         replaceLiteral (CHR 0x5C) [q'] [q'] (xs @ CHR 0x5C # x # ys)
           = xs @ CHR 0x5C # replaceLiteral (CHR 0x5C) [q'] [q'] (x # ys))"
    using replaceLiteral_plain replaceLiteral_escaped replaceLiteral_other by blast
  have g: "tokenize exampleTokenizer '':42'' =
     Some (Inr [\<lparr>type = PLACEHOLDER, text = '':42'', value = '':42'', key = Some ''42'',
                  whitespaceBefore = Some []\<rparr>])"
    by code_simp
  have h: "tokenize exampleTokenizer ''@foo'' =
     Some (Inr [\<lparr>type = PLACEHOLDER, text = ''@foo'', value = ''@foo'', key = Some ''foo'',
                  whitespaceBefore = Some []\<rparr>])"
    by code_simp
  have i: "tokenize exampleTokenizer ''?'' =
     Some (Inr [\<lparr>type = PLACEHOLDER, text = ''?'', value = ''?'', key = Some [],
                  whitespaceBefore = Some []\<rparr>])"
    by code_simp
  have j: "tokenize exampleTokenizer
       [CHR ''@'', CHR 0x22, CHR ''a'', CHR 0x5C, CHR 0x22, CHR ''b'', CHR 0x22] =
     Some (Inr [\<lparr>type = PLACEHOLDER,
                  text = [CHR ''@'', CHR 0x22, CHR ''a'', CHR 0x5C, CHR 0x22, CHR ''b'', CHR 0x22],
                  value = [CHR ''@'', CHR 0x22, CHR ''a'', CHR 0x5C, CHR 0x22, CHR ''b'', CHR 0x22],
                  key = Some [CHR ''a'', CHR 0x22, CHR ''b''],
                  whitespaceBefore = Some []\<rparr>])"
    by code_simp
  show ?thesis
    by (rule conjI[OF a conjI[OF b conjI[OF b' conjI[OF c conjI[OF d conjI[OF e
          conjI[OF quoted_key conjI[OF f conjI[OF g conjI[OF h conjI[OF i j]]]]]]]]]]])
qed

text \<open>The witness: \<open>:7\<close> is not a named placeholder of the example dialect (its named
  prefix is \<open>@\<close>) nor a quoted one; the numbered pattern, third in the list, is the
  first to match.\<close>

theorem C6_placeholders_witness:
  "length (placeholderPatterns exampleTokenizer) = 4 \<and>
   regex (placeholderPatterns exampleTokenizer ! 0) '':7 '' = None \<and>
   regex (placeholderPatterns exampleTokenizer ! 1) '':7 '' = None \<and>
   regex (placeholderPatterns exampleTokenizer ! 2) '':7 '' = Some '':7'' \<and>
   firstMatch (map (\<lambda>p. map_option
        (\<lambda>m. \<lparr>type = PLACEHOLDER, text = m, value = m, key = Some (parseKey p m),
                whitespaceBefore = None\<rparr>) (regex p '':7 ''))
        (placeholderPatterns exampleTokenizer)) =
     Some \<lparr>type = PLACEHOLDER, text = '':7'', value = '':7'', key = Some ''7'',
            whitespaceBefore = None\<rparr> \<and>
   replaceLiteral (CHR 0x5C) [CHR 0x22] [CHR 0x22] (''a'' @ CHR 0x5C # CHR 0x22 # ''b'')
     = ''a'' @ CHR 0x22 # ''b''"
proof -
  have l: "length (placeholderPatterns exampleTokenizer) = 4" by code_simp
  have r0: "regex (placeholderPatterns exampleTokenizer ! 0) '':7 '' = None" by code_simp
  have r1: "regex (placeholderPatterns exampleTokenizer ! 1) '':7 '' = None" by code_simp
  have r2: "regex (placeholderPatterns exampleTokenizer ! 2) '':7 '' = Some '':7''" by code_simp
  have m: "matchPlaceholderToken exampleTokenizer '':7 '' =
     Some \<lparr>type = PLACEHOLDER, text = '':7'', value = '':7'', key = Some ''7'',
            whitespaceBefore = None\<rparr>"
    by code_simp
  note t = C6_placeholders[where tk = exampleTokenizer and input = "'':7 ''"
      and q' = "CHR 0x22" and xs = "''a''" and ys = "''b''"]
  from t[THEN conjunct2, THEN conjunct2, THEN conjunct2, THEN conjunct1] m
  have f: "firstMatch (map (\<lambda>p. map_option
        (\<lambda>m. \<lparr>type = PLACEHOLDER, text = m, value = m, key = Some (parseKey p m),
                whitespaceBefore = None\<rparr>) (regex p '':7 ''))
        (placeholderPatterns exampleTokenizer)) =
     Some \<lparr>type = PLACEHOLDER, text = '':7'', value = '':7'', key = Some ''7'',
            whitespaceBefore = None\<rparr>"
    by simp
  have nb: "CHR 0x5C \<notin> set ''a''" by simp
  note t7 = t[THEN conjunct2, THEN conjunct2, THEN conjunct2, THEN conjunct2, THEN conjunct2,
      THEN conjunct2, THEN conjunct2, THEN conjunct1, THEN mp, OF nb]
  from t7[THEN conjunct2, THEN conjunct1]
  have u: "replaceLiteral (CHR 0x5C) [CHR 0x22] [CHR 0x22] (''a'' @ CHR 0x5C # CHR 0x22 # ''b'')
     = ''a'' @ CHR 0x22 # ''b''"
    by simp
  show ?thesis by (rule conjI[OF l conjI[OF r0 conjI[OF r1 conjI[OF r2 conjI[OF f u]]]]])
qed

end
